theory Spec2Isabelle
  imports Main
begin

section \<open>The service supervisor (class ComposedService)\<close>

text \<open>
  The supervisor of one service is the class \<open>ComposedService\<close>: its fields are the
  fields of the record \<open>composed_service\<close>, its methods are the functions below.
  JavaScript runs one callback at a time, so a method body between two \<open>await\<close>s is one
  atomic step; what happens between the steps (the operating system, the user's
  \<open>ready\<close> and \<open>onCrash\<close> functions, the timer) arrives as a label of the step function.

  Objects that the code compares or hands out by reference (promises, process handles)
  carry a number taken from the counter \<open>fresh\<close>.
\<close>

type_synonym service_id = string

record composed_service_crash =
  date :: nat
  logTail :: "string list"

record on_crash_config_context =
  isServiceReady :: bool
  crash :: composed_service_crash
  ctx_crashes :: "composed_service_crash list"

text \<open>What the promise returned by the user's \<open>onCrash\<close> function does.\<close>

datatype hook_result = HookFulfils | HookRejects string | HookPending

text \<open>
  The fields of \<open>NormalizedComposedServiceConfig\<close> that the supervisor and the
  orchestrator read. The \<open>ready\<close> function reads the output stream of the process, so
  its outcome is a label (\<open>ReadyFulfils\<close>, \<open>ReadyRejects\<close>).
\<close>

record service_config =
  dependencies :: "service_id list"
  minimumRestartDelay :: nat
  onCrash :: "on_crash_config_context \<Rightarrow> hook_result"

text \<open>The two call sites of \<open>startProcess\<close>: \<open>start\<close> and \<open>handleCrash\<close>.\<close>

datatype origin = ByStart | ByRestart

text \<open>
  What a supervisor does that is visible outside: its \<open>console.log\<close> lines, its
  \<open>console.error\<close> of an \<open>InternalError\<close>, its calls of \<open>die\<close>, of the \<open>ready\<close>
  function (\<open>GateCreated\<close>), of \<open>new ServiceProcess\<close> (\<open>Spawned\<close>) and of
  \<open>process.end()\<close> (\<open>EndRequested\<close>).
\<close>

datatype event =
    LogStarting
  | LogStarted
  | LogCrashed
  | LogRestarting
  | LogStopping
  | LogStopped
  | InternalErrorLogged string
  | DieCalled string
  | GateCreated nat
  | Spawned nat origin
  | EndRequested nat

text \<open>
  The promise \<open>this.ready\<close>: pending, fulfilled, or (the \<open>ready\<close> function failed, the
  \<open>catch\<close> handler called \<open>die\<close> and returned its promise) pending for ever.
\<close>

datatype gate_state = GatePending | GateResolved | GateDied

text \<open>
  Modelled from the spec: the class \<open>ServiceProcess\<close> is imported by the supervisor
  and is not among the sources. Of a handle the supervisor reads \<open>isEnded\<close>, awaits
  \<open>started\<close>, calls \<open>end()\<close> and receives the crash callback; a process that exits
  without \<open>end()\<close> having been called signals a crash to its owner exactly once
  (\<open>crashPending\<close> is that signal on its way).
\<close>

record process_handle =
  handle_id :: nat
  isEnded :: bool
  endRequested :: bool
  crashPending :: bool

text \<open>
  \<open>startResult\<close> is \<open>startProcess().then(() => this.ready).then(log)\<close>: it waits for
  the process, then for the readiness promise, and is then fulfilled.
  \<open>stopResult\<close> is \<open>Promise.resolve()\<close> or \<open>process.end().then(log)\<close>.
\<close>

datatype start_chain = AwaitProcess nat | AwaitReady | StartResolved

datatype stop_chain = AwaitEnd nat | StopResolved

text \<open>Where a call of \<open>handleCrash\<close> is suspended.\<close>

datatype crash_phase =
    AwaitIsResolved
  | AwaitOnCrash hook_result
  | AwaitDelay
  | CrashReturned
  | CrashParked

record crash_task =
  deadline :: nat
  the_crash :: composed_service_crash
  wasReady :: bool
  phase :: crash_phase

record composed_service =
  fresh :: nat
  ready :: "(nat \<times> gate_state) option"
  process :: "process_handle option"
  startResult :: "(nat \<times> start_chain) option"
  stopResult :: "(nat \<times> stop_chain) option"
  crashes :: "composed_service_crash list"
  startedPending :: "nat \<Rightarrow> bool"
  crashTasks :: "nat \<Rightarrow> crash_task option"

text \<open>
  \<open>startedPending h\<close>: the call of \<open>startProcess\<close> that made handle \<open>h\<close> is suspended
  at \<open>await this.process.started\<close>. \<open>crashTasks h\<close>: the call of \<open>handleCrash\<close> for
  handle \<open>h\<close>.
\<close>

definition new_service :: composed_service where
  "new_service =
     \<lparr>fresh = 0, ready = None, process = None, startResult = None, stopResult = None,
      crashes = [], startedPending = (\<lambda>_. False), crashTasks = (\<lambda>_. None)\<rparr>"

definition quote :: "string \<Rightarrow> string" where
  "quote s = CHR 0x27 # s @ [CHR 0x27]"

text \<open>The constructor's \<open>this.die = message => die(`Error in '${id}': ${message}`)\<close>.\<close>

definition die_message :: "service_id \<Rightarrow> string \<Rightarrow> string" where
  "die_message sid message = ''Error in '' @ quote sid @ '': '' @ message"

definition defineReady :: "composed_service \<Rightarrow> composed_service \<times> event list" where
  "defineReady s =
     (s\<lparr>ready := Some (fresh s, GatePending), fresh := Suc (fresh s)\<rparr>,
      [GateCreated (fresh s)])"

text \<open>The synchronous part of \<open>startProcess\<close>, up to its \<open>await\<close>.\<close>

definition startProcess ::
  "origin \<Rightarrow> composed_service \<Rightarrow> composed_service \<times> event list \<times> nat" where
  "startProcess who s =
     (let h = fresh s in
      (s\<lparr>fresh := Suc h,
         process := Some \<lparr>handle_id = h, isEnded = False, endRequested = False,
                          crashPending = False\<rparr>,
         startedPending := (startedPending s)(h := True)\<rparr>,
       [Spawned h who], h))"

text \<open>\<open>start()\<close>: the new state, what it did, and the promise it returns (\<open>None\<close> is
  \<open>undefined\<close>).\<close>

definition start :: "composed_service \<Rightarrow> composed_service \<times> event list \<times> nat option" where
  "start s =
     (case stopResult s of
        Some _ \<Rightarrow>
          (s, [InternalErrorLogged ''Cannot start after stopping''],
           map_option fst (startResult s))
      | None \<Rightarrow>
          (case startResult s of
             Some (p, _) \<Rightarrow> (s, [], Some p)
           | None \<Rightarrow>
               (let (s1, e1) = defineReady s;
                    (s2, e2, h) = startProcess ByStart s1;
                    p = fresh s2
                in (s2\<lparr>fresh := Suc p, startResult := Some (p, AwaitProcess h)\<rparr>,
                    LogStarting # e1 @ e2, Some p))))"

definition stop :: "composed_service \<Rightarrow> composed_service \<times> event list \<times> nat" where
  "stop s =
     (case stopResult s of
        Some (p, _) \<Rightarrow> (s, [], p)
      | None \<Rightarrow>
          (let p = fresh s;
               resolved = (s\<lparr>fresh := Suc p, stopResult := Some (p, StopResolved)\<rparr>, [], p)
           in case process s of
                None \<Rightarrow> resolved
              | Some ph \<Rightarrow>
                  if isEnded ph then resolved
                  else (s\<lparr>fresh := Suc p,
                          process := Some (ph\<lparr>endRequested := True\<rparr>),
                          stopResult := Some (p, AwaitEnd (handle_id ph))\<rparr>,
                        [LogStopping, EndRequested (handle_id ph)], p)))"

text \<open>
  The synchronous part of \<open>handleCrash(proc)\<close>, called at time \<open>now\<close>: the timer is set,
  the crash is pushed, and \<open>isResolved(this.ready)\<close> is called. \<open>isResolved\<close> races the
  promise against \<open>Promise.resolve().then(() => false)\<close>, whose reaction is queued at
  this moment: the answer is whether \<open>this.ready\<close> is fulfilled now. Were \<open>this.ready\<close>
  undefined, the call would throw and the function end there.
\<close>

definition handleCrash ::
  "service_config \<Rightarrow> nat \<Rightarrow> string list \<Rightarrow> process_handle \<Rightarrow> composed_service
   \<Rightarrow> composed_service \<times> event list" where
  "handleCrash cfg now tail proc s =
     (case stopResult s of
        Some _ \<Rightarrow>
          (s, [InternalErrorLogged ''Not expecting handleCrash called when stopping''])
      | None \<Rightarrow>
          (let c = \<lparr>date = now, logTail = tail\<rparr>;
               t = \<lparr>deadline = now + minimumRestartDelay cfg, the_crash = c,
                    wasReady = (case ready s of Some (_, GateResolved) \<Rightarrow> True | _ \<Rightarrow> False),
                    phase = (if ready s = None then CrashReturned else AwaitIsResolved)\<rparr>
           in (s\<lparr>crashes := crashes s @ [c],
                 crashTasks := (crashTasks s)(handle_id proc \<mapsto> t)\<rparr>,
               [LogCrashed])))"

definition set_phase :: "nat \<Rightarrow> crash_task \<Rightarrow> crash_phase \<Rightarrow> composed_service \<Rightarrow> composed_service"
  where
  "set_phase h t ph s = s\<lparr>crashTasks := (crashTasks s)(h \<mapsto> t\<lparr>phase := ph\<rparr>)\<rparr>"

text \<open>\<open>handleCrash\<close> for handle \<open>h\<close> goes on after an \<open>await\<close>; \<open>None\<close>: it cannot yet.\<close>

definition crashContinue ::
  "service_id \<Rightarrow> service_config \<Rightarrow> nat \<Rightarrow> nat \<Rightarrow> composed_service
   \<Rightarrow> (composed_service \<times> event list) option" where
  "crashContinue sid cfg now h s =
     (case crashTasks s h of
        None \<Rightarrow> None
      | Some t \<Rightarrow>
          (case phase t of
             AwaitIsResolved \<Rightarrow>
               Some (set_phase h t
                       (AwaitOnCrash (onCrash cfg
                          \<lparr>isServiceReady = wasReady t, crash = the_crash t,
                           ctx_crashes = crashes s\<rparr>)) s, [])
           | AwaitOnCrash r \<Rightarrow>
               (case r of
                  HookPending \<Rightarrow> None
                | HookRejects e \<Rightarrow>
                    Some (set_phase h t CrashParked s,
                          [DieCalled (die_message sid (''Error from onCrash function: '' @ e))])
                | HookFulfils \<Rightarrow>
                    if stopResult s \<noteq> None then Some (set_phase h t CrashReturned s, [])
                    else Some (set_phase h t AwaitDelay s, []))
           | AwaitDelay \<Rightarrow>
               if now < deadline t then None
               else if stopResult s \<noteq> None then Some (set_phase h t CrashReturned s, [])
               else (let (s1, e1, h1) = startProcess ByRestart s
                     in Some (set_phase h t CrashReturned s1, LogRestarting # e1))
           | CrashReturned \<Rightarrow> None
           | CrashParked \<Rightarrow> None))"

text \<open>
  What can happen to a supervisor between two calls of its methods.
  \<^item> \<open>ProcStarted h\<close>, \<open>ProcStartFailed h e\<close>: the promise \<open>started\<close> of handle \<open>h\<close> is
    settled and \<open>startProcess\<close> goes on (it returns, or calls \<open>die\<close> and waits for ever).
  \<^item> \<open>ProcExited\<close>: the current process has exited.
  \<^item> \<open>CrashNotified tail\<close>: the handle calls the crash callback, \<open>handleCrash(proc)\<close>.
  \<^item> \<open>ReadyFulfils\<close>, \<open>ReadyRejects e\<close>: the promise of the \<open>ready\<close> function is settled.
  \<^item> \<open>StartChain\<close>: the last \<open>then\<close> of \<open>startResult\<close> runs.
  \<^item> \<open>StopChain\<close>: the \<open>then\<close> of \<open>stopResult\<close> runs.
  \<^item> \<open>CrashContinue h\<close>: \<open>handleCrash\<close> for handle \<open>h\<close> goes on.
\<close>

datatype service_label =
    ProcStarted nat
  | ProcStartFailed nat string
  | ProcExited
  | CrashNotified "string list"
  | ReadyFulfils
  | ReadyRejects string
  | StartChain
  | StopChain
  | CrashContinue nat

definition service_step ::
  "service_id \<Rightarrow> service_config \<Rightarrow> nat \<Rightarrow> service_label \<Rightarrow> composed_service
   \<Rightarrow> (composed_service \<times> event list) option" where
  "service_step sid cfg now l s =
     (case l of
        ProcStarted h \<Rightarrow>
          if startedPending s h
          then Some (s\<lparr>startedPending := (startedPending s)(h := False),
                       startResult :=
                         (case startResult s of
                            Some (p, AwaitProcess h1) \<Rightarrow>
                              if h1 = h then Some (p, AwaitReady) else startResult s
                          | r \<Rightarrow> r)\<rparr>, [])
          else None
      | ProcStartFailed h e \<Rightarrow>
          if startedPending s h
          then Some (s\<lparr>startedPending := (startedPending s)(h := False)\<rparr>,
                     [DieCalled (die_message sid (''Error starting process: '' @ e))])
          else None
      | ProcExited \<Rightarrow>
          (case process s of
             None \<Rightarrow> None
           | Some ph \<Rightarrow>
               if isEnded ph then None
               else Some (s\<lparr>process :=
                              Some (ph\<lparr>isEnded := True, crashPending := \<not> endRequested ph\<rparr>)\<rparr>,
                          []))
      | CrashNotified tail \<Rightarrow>
          (case process s of
             None \<Rightarrow> None
           | Some ph \<Rightarrow>
               if crashPending ph
               then Some (handleCrash cfg now tail ph
                            (s\<lparr>process := Some (ph\<lparr>crashPending := False\<rparr>)\<rparr>))
               else None)
      | ReadyFulfils \<Rightarrow>
          (case ready s of
             Some (g, GatePending) \<Rightarrow> Some (s\<lparr>ready := Some (g, GateResolved)\<rparr>, [])
           | _ \<Rightarrow> None)
      | ReadyRejects e \<Rightarrow>
          (case ready s of
             Some (g, GatePending) \<Rightarrow>
               Some (s\<lparr>ready := Some (g, GateDied)\<rparr>,
                     [DieCalled (die_message sid (''Error from ready function: '' @ e))])
           | _ \<Rightarrow> None)
      | StartChain \<Rightarrow>
          (case startResult s of
             Some (p, AwaitReady) \<Rightarrow>
               (case ready s of
                  None \<Rightarrow> Some (s\<lparr>startResult := Some (p, StartResolved)\<rparr>, [LogStarted])
                | Some (g, GateResolved) \<Rightarrow>
                    Some (s\<lparr>startResult := Some (p, StartResolved)\<rparr>, [LogStarted])
                | _ \<Rightarrow> None)
           | _ \<Rightarrow> None)
      | StopChain \<Rightarrow>
          (case stopResult s of
             Some (p, AwaitEnd h) \<Rightarrow>
               (case process s of
                  None \<Rightarrow> None
                | Some ph \<Rightarrow>
                    if handle_id ph = h \<and> isEnded ph
                    then Some (s\<lparr>stopResult := Some (p, StopResolved)\<rparr>, [LogStopped])
                    else None)
           | _ \<Rightarrow> None)
      | CrashContinue h \<Rightarrow> crashContinue sid cfg now h s)"

subsection \<open>A supervisor and its callers\<close>

text \<open>
  \<open>start\<close> and \<open>stop\<close> are public: anyone may call them, any number of times, between
  any two events. A \<open>supervisor\<close> is a service together with the clock and the record
  of what it did and what it returned to its callers, each entry with its time.
\<close>

datatype supervisor_call = CallStart | CallStop | Happens service_label | Advance nat

datatype observation = Did event | StartReturned "nat option" | StopReturned nat

record supervisor =
  clock :: nat
  service :: composed_service
  history :: "(nat \<times> observation) list"

definition new_supervisor :: supervisor where
  "new_supervisor = \<lparr>clock = 0, service = new_service, history = []\<rparr>"

definition observe :: "nat \<Rightarrow> event list \<Rightarrow> (nat \<times> observation) list" where
  "observe t evs = map (\<lambda>e. (t, Did e)) evs"

definition supervisor_step ::
  "service_id \<Rightarrow> service_config \<Rightarrow> supervisor_call \<Rightarrow> supervisor \<Rightarrow> supervisor option" where
  "supervisor_step sid cfg c x =
     (case c of
        CallStart \<Rightarrow>
          (let (s1, evs, r) = start (service x)
           in Some (x\<lparr>service := s1,
                      history := history x @ observe (clock x) evs @ [(clock x, StartReturned r)]\<rparr>))
      | CallStop \<Rightarrow>
          (let (s1, evs, r) = stop (service x)
           in Some (x\<lparr>service := s1,
                      history := history x @ observe (clock x) evs @ [(clock x, StopReturned r)]\<rparr>))
      | Happens l \<Rightarrow>
          (case service_step sid cfg (clock x) l (service x) of
             None \<Rightarrow> None
           | Some (s1, evs) \<Rightarrow>
               Some (x\<lparr>service := s1, history := history x @ observe (clock x) evs\<rparr>))
      | Advance n \<Rightarrow> Some (x\<lparr>clock := clock x + n\<rparr>))"

fun supervisor_run ::
  "service_id \<Rightarrow> service_config \<Rightarrow> supervisor_call list \<Rightarrow> supervisor \<Rightarrow> supervisor option" where
  "supervisor_run sid cfg [] x = Some x"
| "supervisor_run sid cfg (c # cs) x =
     (case supervisor_step sid cfg c x of
        None \<Rightarrow> None
      | Some x1 \<Rightarrow> supervisor_run sid cfg cs x1)"

fun is_start_spawn :: "observation \<Rightarrow> bool" where
  "is_start_spawn (Did (Spawned h ByStart)) = True"
| "is_start_spawn _ = False"

fun is_spawn :: "observation \<Rightarrow> bool" where
  "is_spawn (Did (Spawned h w)) = True"
| "is_spawn _ = False"

fun is_end_request :: "observation \<Rightarrow> bool" where
  "is_end_request (Did (EndRequested h)) = True"
| "is_end_request _ = False"

fun is_gate :: "observation \<Rightarrow> bool" where
  "is_gate (Did (GateCreated g)) = True"
| "is_gate _ = False"

fun is_die :: "observation \<Rightarrow> bool" where
  "is_die (Did (DieCalled m)) = True"
| "is_die _ = False"

text \<open>
  Modelled from the spec: the default \<open>onCrash\<close> function is set by
  \<open>validateAndNormalizeConfig\<close>, which is not among the sources. The spec's default
  policy is restart-if-started: the hook lets a service that had reached readiness
  restart, and fails (a fatal error) for one that had not.
\<close>

definition default_onCrash :: "on_crash_config_context \<Rightarrow> hook_result" where
  "default_onCrash ctx =
     (if isServiceReady ctx then HookFulfils else HookRejects ''Crashed before ready'')"

text \<open>A service with no dependencies, the default hook and a restart delay of one second.\<close>

definition example_config :: service_config where
  "example_config = \<lparr>dependencies = [], minimumRestartDelay = 1000, onCrash = default_onCrash\<rparr>"

text \<open>The first call of \<open>start\<close> or \<open>stop\<close> among the calls and events \<open>cs\<close>.\<close>

fun first_call :: "supervisor_call list \<Rightarrow> supervisor_call option" where
  "first_call [] = None"
| "first_call (CallStart # cs) = Some CallStart"
| "first_call (CallStop # cs) = Some CallStop"
| "first_call (c # cs) = first_call cs"

text \<open>What the supervisor \<open>y\<close> recorded after the moment of \<open>x\<close>.\<close>

definition later :: "supervisor \<Rightarrow> supervisor \<Rightarrow> (nat \<times> observation) list" where
  "later x y = drop (length (history x)) (history y)"

text \<open>
  What the record of a supervisor and its memoized promises have to do with each other.
\<close>

definition supervisor_inv :: "supervisor \<Rightarrow> bool" where
  "supervisor_inv x =
     ((\<forall>t r. (t, StartReturned r) \<in> set (history x) \<longrightarrow>
          r = map_option fst (startResult (service x))) \<and>
      (startResult (service x) = None \<and> stopResult (service x) = None \<longrightarrow>
         (\<forall>t r. (t, StartReturned r) \<notin> set (history x))) \<and>
      (\<forall>t r. (t, StopReturned r) \<in> set (history x) \<longrightarrow>
          map_option fst (stopResult (service x)) = Some r) \<and>
      length (filter is_start_spawn (map snd (history x))) =
        (if startResult (service x) = None then 0 else 1) \<and>
      length (filter is_gate (map snd (history x))) =
        (if startResult (service x) = None then 0 else 1) \<and>
      length (filter is_end_request (map snd (history x))) \<le>
        (if stopResult (service x) = None then 0 else 1))"

text \<open>
  A service that started, was ready, and whose process then exited by itself; and how
  its crash is handled when nothing else happens: the crash callback, the two
  continuations of \<open>handleCrash\<close> up to \<open>await delay\<close>, \<open>n\<close> milliseconds, and the
  continuation after the delay.
\<close>

definition crashed_calls :: "supervisor_call list" where
  "crashed_calls = [CallStart, Happens (ProcStarted 1), Happens ReadyFulfils, Happens StartChain,
     Happens ProcExited]"



section \<open>The orchestrator (class CompositeService)\<close>

text \<open>
  \<open>Object.entries(config.services)\<close>: the services in the order of the configuration.
\<close>

type_synonym composite_config = "(service_id \<times> service_config) list"

definition service_ids :: "composite_config \<Rightarrow> service_id list" where
  "service_ids cfg = map fst cfg"

definition deps_of :: "composite_config \<Rightarrow> service_id \<Rightarrow> service_id list" where
  "deps_of cfg s = (case map_of cfg s of None \<Rightarrow> [] | Some c \<Rightarrow> dependencies c)"

text \<open>\<open>this.services.filter(({ config }) => config.dependencies.includes(service.id))\<close>\<close>

definition dependents :: "composite_config \<Rightarrow> service_id \<Rightarrow> service_id list" where
  "dependents cfg s = filter (\<lambda>d. s \<in> set (deps_of cfg d)) (service_ids cfg)"

text \<open>
  \<open>startService\<close> and \<open>stopService\<close> are async functions that call themselves before
  their first \<open>await\<close>: when the constructor has called \<open>startService\<close> for every
  service, one call is suspended for every chain of calls, and likewise for
  \<open>stopService\<close> when \<open>die\<close> has run. A call is named by its chain, the service it is
  for first and the service of the outermost call last. \<open>start_call cfg p\<close>: the chain
  \<open>p\<close> is one of \<open>startService\<close>; \<open>stop_call cfg q\<close>: one of \<open>stopService\<close>. (On a
  cyclic graph the chains do not end, the source's recursion exhausts the stack, and
  no call on a cycle goes on; here such a call is never resumed.)

  \<open>this.serviceMap.get(id)!\<close> is \<open>undefined\<close> for an identifier that names no service;
  \<open>startService(undefined)\<close> throws at \<open>service.config\<close> and its promise is rejected.
\<close>

fun start_call :: "composite_config \<Rightarrow> service_id list \<Rightarrow> bool" where
  "start_call cfg [] = False"
| "start_call cfg [s] = (s \<in> set (service_ids cfg))"
| "start_call cfg (d # s # rest) =
     (d \<in> set (service_ids cfg) \<and> d \<in> set (deps_of cfg s) \<and> start_call cfg (s # rest))"

fun stop_call :: "composite_config \<Rightarrow> service_id list \<Rightarrow> bool" where
  "stop_call cfg [] = False"
| "stop_call cfg [s] = (s \<in> set (service_ids cfg))"
| "stop_call cfg (d # s # rest) =
     (d \<in> set (dependents cfg s) \<and> stop_call cfg (s # rest))"

text \<open>
  A call of \<open>startService\<close>: at \<open>await Promise.all(...)\<close>; at \<open>await never()\<close>; at
  \<open>await service.start()\<close> with the value that \<open>start()\<close> returned; returned; rejected.
  A call of \<open>stopService\<close>: at \<open>await Promise.all(...)\<close>; at \<open>await service.stop()\<close>;
  returned.
\<close>

datatype start_task = AwaitDeps | Parked | AwaitStart "nat option" | StartDone | StartFailed

datatype stop_task = AwaitDependents | AwaitStop nat | StopDone

text \<open>
  The promises of the orchestrator. \<open>never()\<close> is \<open>new Promise(() => {})\<close>: its executor
  drops the two functions that could settle it.
\<close>

datatype promise =
    StartServicePromise "service_id list"
  | StopServicePromise "service_id list"
  | NeverSettles

definition never :: promise where
  "never = NeverSettles"

datatype composite_event =
    LogInfo string
  | LogError string
  | Service service_id event
  | StartInvoked "service_id list"
  | StartServiceDone "service_id list"
  | StopInvoked "service_id list"
  | StopServiceDone "service_id list"
  | ProcessExit nat

record composite_service =
  stopping :: bool
  serviceMap :: "service_id \<Rightarrow> composed_service"
  startTasks :: "service_id list \<Rightarrow> start_task option"
  stopTasks :: "service_id list \<Rightarrow> stop_task option"
  trace :: "composite_event list"
  now :: nat
  exitCode :: "nat option"
  startedLogged :: bool
  stoppedLogged :: bool

definition settled :: "composite_service \<Rightarrow> promise \<Rightarrow> bool" where
  "settled st p =
     (case p of
        StartServicePromise c \<Rightarrow> startTasks st c = Some StartDone \<or> startTasks st c = Some StartFailed
      | StopServicePromise c \<Rightarrow> stopTasks st c = Some StopDone
      | NeverSettles \<Rightarrow> False)"

text \<open>
  The constructor, given what \<open>validateAndNormalizeConfig\<close> returned (that function is
  not among the sources): the text of its error, or the normalized configuration.
  The debug line with the configuration and the piping of the output are left out.
\<close>

definition construct :: "string + composite_config \<Rightarrow> composite_service" where
  "construct validated =
     (case validated of
        Inl configValidationError \<Rightarrow>
          \<lparr>stopping = False, serviceMap = (\<lambda>_. new_service), startTasks = (\<lambda>_. None),
           stopTasks = (\<lambda>_. None), trace = [LogError configValidationError, ProcessExit 1],
           now = 0, exitCode = Some 1, startedLogged = False, stoppedLogged = False\<rparr>
      | Inr cfg \<Rightarrow>
          \<lparr>stopping = False, serviceMap = (\<lambda>_. new_service),
           startTasks = (\<lambda>p. if start_call cfg p then Some AwaitDeps else None),
           stopTasks = (\<lambda>_. None), trace = [LogInfo ''Starting composite service...''],
           now = 0, exitCode = None, startedLogged = False, stoppedLogged = False\<rparr>)"

text \<open>
  \<open>die(message)\<close>: the synchronous part. The calls of \<open>stopService\<close> it makes are the
  suspended calls \<open>stop_call\<close>; the two \<open>then\<close>s are the labels \<open>AllStopped\<close> and
  \<open>ExitNow\<close> below.
\<close>

definition die :: "composite_config \<Rightarrow> string \<Rightarrow> composite_service \<Rightarrow> composite_service \<times> promise"
  where
  "die cfg message st =
     (if \<not> stopping st
      then st\<lparr>stopping := True,
              trace := trace st @ [LogError message, LogInfo ''Stopping composite service...''],
              stopTasks := (\<lambda>q. if stop_call cfg q then Some AwaitDependents else None)\<rparr>
      else st,
      never)"

fun die_calls :: "event list \<Rightarrow> string list" where
  "die_calls [] = []"
| "die_calls (DieCalled m # es) = m # die_calls es"
| "die_calls (e # es) = die_calls es"

text \<open>The state of the child call for dependency \<open>d\<close> of the call \<open>p\<close>.\<close>

definition child_state :: "composite_config \<Rightarrow> composite_service \<Rightarrow> service_id list \<Rightarrow> start_task option"
  where
  "child_state cfg st c =
     (if hd c \<in> set (service_ids cfg) then startTasks st c else Some StartFailed)"

text \<open>\<open>await\<close> of the value that \<open>start()\<close> returned: \<open>undefined\<close> is no wait at all.\<close>

definition start_outcome_resolved :: "composed_service \<Rightarrow> nat option \<Rightarrow> bool" where
  "start_outcome_resolved s r =
     (case r of None \<Rightarrow> True | Some i \<Rightarrow> startResult s = Some (i, StartResolved))"

text \<open>The call \<open>p\<close> of \<open>startService\<close> goes on after its \<open>await\<close>.\<close>

definition resume_start ::
  "composite_config \<Rightarrow> service_id list \<Rightarrow> composite_service \<Rightarrow> composite_service option" where
  "resume_start cfg p st =
     (case startTasks st p of
        Some AwaitDeps \<Rightarrow>
          (let children = map (\<lambda>d. child_state cfg st (d # p)) (deps_of cfg (hd p)) in
           if Some StartFailed \<in> set children
           then Some (st\<lparr>startTasks := (startTasks st)(p \<mapsto> StartFailed)\<rparr>)
           else if list_all (\<lambda>c. c = Some StartDone) children
           then (if stopping st
                 then Some (st\<lparr>startTasks := (startTasks st)(p \<mapsto> Parked)\<rparr>)
                 else (let (s1, evs, r) = start (serviceMap st (hd p))
                       in Some (st\<lparr>serviceMap := (serviceMap st)(hd p := s1),
                                   startTasks := (startTasks st)(p \<mapsto> AwaitStart r),
                                   trace := trace st @ StartInvoked p # map (Service (hd p)) evs\<rparr>)))
           else None)
      | Some (AwaitStart r) \<Rightarrow>
          if start_outcome_resolved (serviceMap st (hd p)) r
          then Some (st\<lparr>startTasks := (startTasks st)(p \<mapsto> StartDone),
                        trace := trace st @ [StartServiceDone p]\<rparr>)
          else None
      | _ \<Rightarrow> None)"

text \<open>The call \<open>q\<close> of \<open>stopService\<close> goes on after its \<open>await\<close>.\<close>

definition resume_stop ::
  "composite_config \<Rightarrow> service_id list \<Rightarrow> composite_service \<Rightarrow> composite_service option" where
  "resume_stop cfg q st =
     (case stopTasks st q of
        Some AwaitDependents \<Rightarrow>
          if list_all (\<lambda>d. stopTasks st (d # q) = Some StopDone) (dependents cfg (hd q))
          then (let (s1, evs, r) = stop (serviceMap st (hd q))
                in Some (st\<lparr>serviceMap := (serviceMap st)(hd q := s1),
                            stopTasks := (stopTasks st)(q \<mapsto> AwaitStop r),
                            trace := trace st @ StopInvoked q # map (Service (hd q)) evs\<rparr>))
          else None
      | Some (AwaitStop r) \<Rightarrow>
          if stopResult (serviceMap st (hd q)) = Some (r, StopResolved)
          then Some (st\<lparr>stopTasks := (stopTasks st)(q \<mapsto> StopDone),
                        trace := trace st @ [StopServiceDone q]\<rparr>)
          else None
      | _ \<Rightarrow> None)"

text \<open>
  An event inside the supervisor of service \<open>sid\<close>; every \<open>this.die(message)\<close> of the
  supervisor is the orchestrator's \<open>die\<close>.
\<close>

definition inside ::
  "composite_config \<Rightarrow> service_id \<Rightarrow> service_label \<Rightarrow> composite_service \<Rightarrow> composite_service option"
  where
  "inside cfg sid l st =
     (case map_of cfg sid of
        None \<Rightarrow> None
      | Some c \<Rightarrow>
          (case service_step sid c (now st) l (serviceMap st sid) of
             None \<Rightarrow> None
           | Some (s1, evs) \<Rightarrow>
               Some (fold (\<lambda>m x. fst (die cfg m x)) (die_calls evs)
                       (st\<lparr>serviceMap := (serviceMap st)(sid := s1),
                          trace := trace st @ map (Service sid) evs\<rparr>))))"

text \<open>
  The steps of a composite run.
  \<^item> \<open>ResumeStart p\<close>, \<open>ResumeStop q\<close>: a suspended call goes on.
  \<^item> \<open>Signal sig\<close>: the handler of \<open>SIGINT\<close> or \<open>SIGTERM\<close> runs.
  \<^item> \<open>Inside sid l\<close>: an event of a supervisor.
  \<^item> \<open>Tick n\<close>: time passes.
  \<^item> \<open>AllStarted\<close>: the \<open>then\<close> of the constructor's \<open>Promise.all\<close>.
  \<^item> \<open>AllStopped\<close>, \<open>ExitNow\<close>: the two \<open>then\<close>s of \<open>die\<close>; the second is
    \<open>process.exit(1)\<close>, after which nothing runs.
\<close>

datatype label =
    ResumeStart "service_id list"
  | ResumeStop "service_id list"
  | Signal string
  | Inside service_id service_label
  | Tick nat
  | AllStarted
  | AllStopped
  | ExitNow

definition step :: "composite_config \<Rightarrow> label \<Rightarrow> composite_service \<Rightarrow> composite_service option"
  where
  "step cfg l st =
     (if exitCode st \<noteq> None then None
      else case l of
        ResumeStart p \<Rightarrow> resume_start cfg p st
      | ResumeStop q \<Rightarrow> resume_stop cfg q st
      | Signal sig \<Rightarrow>
          if sig = ''SIGINT'' \<or> sig = ''SIGTERM''
          then Some (fst (die cfg (''Received shutdown signal '' @ quote sig) st))
          else None
      | Inside sid l1 \<Rightarrow> inside cfg sid l1 st
      | Tick n \<Rightarrow> Some (st\<lparr>now := now st + n\<rparr>)
      | AllStarted \<Rightarrow>
          if \<not> startedLogged st \<and>
             list_all (\<lambda>s. startTasks st [s] = Some StartDone) (service_ids cfg)
          then Some (st\<lparr>startedLogged := True,
                        trace := trace st @ [LogInfo ''Started composite service'']\<rparr>)
          else None
      | AllStopped \<Rightarrow>
          if stopping st \<and> \<not> stoppedLogged st \<and>
             list_all (\<lambda>s. stopTasks st [s] = Some StopDone) (service_ids cfg)
          then Some (st\<lparr>stoppedLogged := True,
                        trace := trace st @ [LogInfo ''Stopped composite service'']\<rparr>)
          else None
      | ExitNow \<Rightarrow>
          if stoppedLogged st
          then Some (st\<lparr>exitCode := Some 1, trace := trace st @ [ProcessExit 1]\<rparr>)
          else None)"

fun run :: "composite_config \<Rightarrow> label list \<Rightarrow> composite_service \<Rightarrow> composite_service option"
  where
  "run cfg [] st = Some st"
| "run cfg (l # ls) st =
     (case step cfg l st of
        None \<Rightarrow> None
      | Some st1 \<Rightarrow> run cfg ls st1)"

subsection \<open>The graph\<close>

text \<open>
  \<open>closed_config\<close>: every dependency names a service of the configuration (what
  \<open>this.serviceMap.get(id)!\<close> takes for granted). \<open>depends_on\<close>: the pairs of a
  service and one of its dependencies; its transitive closure relates a service to
  everything it depends on, directly or through other services.
\<close>

definition closed_config :: "composite_config \<Rightarrow> bool" where
  "closed_config cfg =
     list_all (\<lambda>s. list_all (\<lambda>d. d \<in> set (service_ids cfg)) (deps_of cfg s)) (service_ids cfg)"

definition depends_on :: "composite_config \<Rightarrow> (service_id \<times> service_id) set" where
  "depends_on cfg = {(d, s). d \<in> set (dependents cfg s)}"

subsection \<open>Example runs\<close>

text \<open>
  One service; and the two services of the README, \<open>web\<close> depending on \<open>api\<close>.
  \<open>signal_run\<close>: the service starts, \<open>SIGINT\<close> arrives, the service is stopped and the
  process exits. \<open>fatal_run\<close>: the \<open>ready\<close> function of the service fails.
  \<open>start_scenario\<close>: \<open>api\<close> starts and the two calls of \<open>startService\<close> for it return.
  \<open>stop_scenario\<close>: then \<open>web\<close> starts, \<open>SIGTERM\<close> arrives, \<open>web\<close> is stopped and
  \<open>stop()\<close> of \<open>api\<close> is called.
  \<open>three_services\<close>: \<open>web\<close> depends on \<open>api\<close>, which depends on \<open>db\<close>;
  \<open>early_stop\<close>: \<open>SIGINT\<close> arrives before any of them has started.
\<close>

definition one_service :: composite_config where
  "one_service = [(''api'', example_config)]"

definition two_services :: composite_config where
  "two_services =
     [(''api'', \<lparr>dependencies = [], minimumRestartDelay = 1000, onCrash = default_onCrash\<rparr>),
      (''web'', \<lparr>dependencies = [''api''], minimumRestartDelay = 1000, onCrash = default_onCrash\<rparr>)]"

definition three_services :: composite_config where
  "three_services =
     [(''db'', \<lparr>dependencies = [], minimumRestartDelay = 1000, onCrash = default_onCrash\<rparr>),
      (''api'', \<lparr>dependencies = [''db''], minimumRestartDelay = 1000, onCrash = default_onCrash\<rparr>),
      (''web'', \<lparr>dependencies = [''api''], minimumRestartDelay = 1000, onCrash = default_onCrash\<rparr>)]"

definition signal_run :: "label list" where
  "signal_run =
     [ResumeStart [''api''], Inside ''api'' (ProcStarted 1), Inside ''api'' ReadyFulfils,
      Inside ''api'' StartChain, ResumeStart [''api''], AllStarted, Signal ''SIGINT'',
      ResumeStop [''api''], Inside ''api'' ProcExited, Inside ''api'' StopChain,
      ResumeStop [''api''], AllStopped, ExitNow]"

definition fatal_run :: "label list" where
  "fatal_run =
     [ResumeStart [''api''], Inside ''api'' (ReadyRejects ''no''),
      ResumeStop [''api''], Inside ''api'' ProcExited, Inside ''api'' StopChain,
      ResumeStop [''api''], AllStopped, ExitNow]"

definition start_scenario :: "label list" where
  "start_scenario =
     [ResumeStart [''api''], Inside ''api'' (ProcStarted 1), Inside ''api'' ReadyFulfils,
      Inside ''api'' StartChain, ResumeStart [''api''], ResumeStart [''api'', ''web''],
      ResumeStart [''api'', ''web'']]"

definition stop_scenario :: "label list" where
  "stop_scenario =
     start_scenario @
     [ResumeStart [''web''], Inside ''web'' (ProcStarted 1), Inside ''web'' ReadyFulfils,
      Inside ''web'' StartChain, ResumeStart [''web''], Signal ''SIGTERM'',
      ResumeStop [''web'', ''api''], Inside ''web'' ProcExited, Inside ''web'' StopChain,
      ResumeStop [''web'', ''api''], ResumeStop [''api'']]"

definition early_stop :: "label list" where
  "early_stop =
     [Signal ''SIGINT'', ResumeStop [''web'', ''api'', ''db''], ResumeStop [''web'', ''api'', ''db''],
      ResumeStop [''api'', ''db''], ResumeStop [''api'', ''db''], ResumeStop [''db'']]"

subsection \<open>Invariants of a composite run\<close>

text \<open>
  \<open>later_trace st st1\<close>: what was added to the trace after the moment of \<open>st\<close>.
  \<open>preceded_by a b tr\<close>: every \<open>b\<close> in \<open>tr\<close> has an \<open>a\<close> before it.
\<close>

definition later_trace :: "composite_service \<Rightarrow> composite_service \<Rightarrow> composite_event list" where
  "later_trace st st1 = drop (length (trace st)) (trace st1)"

definition preceded_by :: "'a \<Rightarrow> 'a \<Rightarrow> 'a list \<Rightarrow> bool" where
  "preceded_by a b tr = (\<forall>pre post. tr = pre @ b # post \<longrightarrow> a \<in> set pre)"

text \<open>
  \<open>exit_inv\<close>: the last \<open>then\<close>s of \<open>die\<close> run only when every \<open>stopService\<close> has
  returned. \<open>start_tasks_ok\<close>: the calls of \<open>startService\<close> are those of the
  constructor, and none is rejected when the configuration is closed.
  \<open>start_state_inv\<close>: what the calls of \<open>startService\<close>, the supervisors and the
  trace have to do with each other, and that \<open>stop()\<close> and \<open>stopService\<close> are called
  only once the stopping flag is set. \<open>start_order_inv\<close>: the order of the events of
  starting. \<open>stop_state_inv\<close>, \<open>stop_order_inv\<close>: the same for stopping.
\<close>

definition exit_inv :: "composite_config \<Rightarrow> composite_service \<Rightarrow> bool" where
  "exit_inv cfg st =
     ((stoppedLogged st \<longrightarrow>
         stopping st \<and> list_all (\<lambda>s. stopTasks st [s] = Some StopDone) (service_ids cfg)) \<and>
      (exitCode st \<noteq> None \<longrightarrow> exitCode st = Some 1 \<and> stoppedLogged st))"

definition start_tasks_ok :: "composite_config \<Rightarrow> composite_service \<Rightarrow> bool" where
  "start_tasks_ok cfg st =
     ((\<forall>p. startTasks st p \<noteq> None \<longrightarrow> start_call cfg p) \<and>
      (closed_config cfg \<longrightarrow> (\<forall>p. startTasks st p \<noteq> Some StartFailed)))"

definition start_state_inv :: "composite_service \<Rightarrow> bool" where
  "start_state_inv st =
     ((\<forall>p. startTasks st p = Some StartDone \<longrightarrow> StartServiceDone p \<in> set (trace st)) \<and>
      (\<forall>p r. startTasks st p = Some (AwaitStart r) \<longrightarrow>
         (\<exists>i c. r = Some i \<and> startResult (serviceMap st (hd p)) = Some (i, c))) \<and>
      (\<forall>s i. startResult (serviceMap st s) = Some (i, StartResolved) \<longrightarrow>
         Service s LogStarted \<in> set (trace st)) \<and>
      (\<forall>s. stopResult (serviceMap st s) \<noteq> None \<longrightarrow> stopping st) \<and>
      (\<forall>q. stopTasks st q \<noteq> None \<longrightarrow> stopping st))"

definition start_order_inv :: "composite_config \<Rightarrow> composite_service \<Rightarrow> bool" where
  "start_order_inv cfg st =
     ((\<forall>p d. d \<in> set (deps_of cfg (hd p)) \<longrightarrow>
         preceded_by (StartServiceDone (d # p)) (StartInvoked p) (trace st)) \<and>
      (\<forall>p. preceded_by (Service (hd p) LogStarted) (StartServiceDone p) (trace st)) \<and>
      (\<forall>s d. d \<in> set (deps_of cfg s) \<longrightarrow>
         preceded_by (Service d LogStarted) (Service s LogStarting) (trace st)))"

definition stop_state_inv :: "composite_config \<Rightarrow> composite_service \<Rightarrow> bool" where
  "stop_state_inv cfg st =
     ((\<forall>q. stopTasks st q \<noteq> None \<longrightarrow> stop_call cfg q) \<and>
      (\<forall>q r. stopTasks st q = Some (AwaitStop r) \<longrightarrow> StopInvoked q \<in> set (trace st)) \<and>
      (\<forall>q. stopTasks st q = Some StopDone \<longrightarrow> StopServiceDone q \<in> set (trace st)) \<and>
      (\<forall>q. StopServiceDone q \<in> set (trace st) \<longrightarrow>
         (\<exists>r. stopResult (serviceMap st (hd q)) = Some (r, StopResolved))) \<and>
      (\<forall>q. StopInvoked q \<in> set (trace st) \<longrightarrow> stop_call cfg q))"

definition stop_order_inv :: "composite_config \<Rightarrow> composite_service \<Rightarrow> bool" where
  "stop_order_inv cfg st =
     ((\<forall>q d. d \<in> set (dependents cfg (hd q)) \<longrightarrow>
         preceded_by (StopServiceDone (d # q)) (StopInvoked q) (trace st)) \<and>
      (\<forall>q. preceded_by (StopInvoked q) (StopServiceDone q) (trace st)))"

section \<open>Properties of the supervisor\<close>

subsection \<open>What an event inside a supervisor leaves alone\<close>

lemmas step_defs = service_step_def crashContinue_def handleCrash_def startProcess_def set_phase_def
lemmas step_splits = service_label.splits option.splits if_splits prod.splits start_chain.splits
  stop_chain.splits gate_state.splits crash_phase.splits hook_result.splits

lemma service_step_startResult:
  "service_step sid cfg t l s = Some (s1, evs) \<Longrightarrow>
   map_option fst (startResult s1) = map_option fst (startResult s)"
  by (auto simp: step_defs Let_def split: step_splits)

lemma service_step_stopResult:
  "service_step sid cfg t l s = Some (s1, evs) \<Longrightarrow>
   map_option fst (stopResult s1) = map_option fst (stopResult s)"
  by (auto simp: step_defs Let_def split: step_splits)

lemma service_step_events:
  "service_step sid cfg t l s = Some (s1, evs) \<Longrightarrow> e \<in> set evs \<Longrightarrow>
   \<not> is_start_spawn (Did e) \<and> \<not> is_end_request (Did e) \<and> \<not> is_gate (Did e)
   \<and> e \<noteq> LogStarting"
  by (auto simp: step_defs Let_def split: step_splits)

lemma service_step_stopped:
  "service_step sid cfg t l s = Some (s1, evs) \<Longrightarrow> stopResult s \<noteq> None \<Longrightarrow>
   Spawned h w \<notin> set evs \<and> LogRestarting \<notin> set evs \<and>
   map_option handle_id (process s1) = map_option handle_id (process s)"
  by (auto simp: step_defs Let_def split: step_splits)

lemma filter_observe_none:
  "(\<And>e. e \<in> set evs \<Longrightarrow> \<not> P (Did e)) \<Longrightarrow> filter P (map snd (observe t evs)) = []"
  by (induction evs) (auto simp: observe_def)

lemma supervisor_inv_step:
  assumes "supervisor_inv x" and "supervisor_step sid cfg c x = Some y"
  shows "supervisor_inv y"
proof (cases c)
  case CallStart
  with assms show ?thesis
    by (auto simp: supervisor_inv_def supervisor_step_def start_def defineReady_def
        startProcess_def observe_def Let_def split: option.splits prod.splits)
next
  case CallStop
  with assms show ?thesis
    by (auto simp: supervisor_inv_def supervisor_step_def stop_def observe_def Let_def
        split: option.splits prod.splits if_splits)
next
  case (Happens l)
  with assms obtain s1 evs where st: "service_step sid cfg (clock x) l (service x) = Some (s1, evs)"
    and y: "y = x\<lparr>service := s1, history := history x @ observe (clock x) evs\<rparr>"
    by (auto simp: supervisor_step_def split: option.splits)
  have a: "map_option fst (startResult s1) = map_option fst (startResult (service x))"
    and b: "map_option fst (stopResult s1) = map_option fst (stopResult (service x))"
    using st service_step_startResult service_step_stopResult by blast+
  have n1: "filter is_start_spawn (map snd (observe (clock x) evs)) = []"
    by (rule filter_observe_none) (use service_step_events[OF st] in blast)
  have n2: "filter is_gate (map snd (observe (clock x) evs)) = []"
    by (rule filter_observe_none) (use service_step_events[OF st] in blast)
  have n3: "filter is_end_request (map snd (observe (clock x) evs)) = []"
    by (rule filter_observe_none) (use service_step_events[OF st] in blast)
  have c: "(startResult s1 = None) = (startResult (service x) = None)"
    "(stopResult s1 = None) = (stopResult (service x) = None)"
    using a b by (metis option.map_disc_iff)+
  have d: "(t, StartReturned r) \<in> set (observe (clock x) evs) = False"
    "(t, StopReturned r1) \<in> set (observe (clock x) evs) = False" for t r r1
    by (auto simp: observe_def)
  from assms(1) show ?thesis
    unfolding supervisor_inv_def y
    by (simp add: n1 n2 n3 a b c d)
next
  case (Advance n)
  with assms show ?thesis
    by (auto simp: supervisor_inv_def supervisor_step_def)
qed

lemma supervisor_run_induct:
  assumes "supervisor_run sid cfg cs x = Some y" and "P x"
    and "\<And>c a b. P a \<Longrightarrow> supervisor_step sid cfg c a = Some b \<Longrightarrow> P b"
  shows "P y"
  using assms(1,2)
proof (induction cs arbitrary: x)
  case Nil
  then show ?case by simp
next
  case (Cons c cs)
  then show ?case by (auto split: option.splits intro: assms(3))
qed

lemma supervisor_inv_new: "supervisor_inv new_supervisor"
  by (simp add: supervisor_inv_def new_supervisor_def new_service_def)

lemma supervisor_inv_run:
  "supervisor_run sid cfg cs new_supervisor = Some x \<Longrightarrow> supervisor_inv x"
  by (erule supervisor_run_induct[where P = supervisor_inv])
     (auto intro: supervisor_inv_new supervisor_inv_step)

subsection \<open>Memoized start and stop\<close>

lemmas eval_defs = supervisor_step_def start_def stop_def defineReady_def step_defs observe_def
  new_supervisor_def new_service_def example_config_def default_onCrash_def Let_def later_def

lemma supervisor_step_stopResult_kept:
  "supervisor_step sid cfg c x = Some y \<Longrightarrow> stopResult (service x) \<noteq> None \<Longrightarrow>
   stopResult (service y) \<noteq> None"
  using service_step_stopResult
  by (cases c) (fastforce simp: supervisor_step_def start_def stop_def split: option.splits prod.splits)+

lemma supervisor_step_stop:
  "supervisor_step sid cfg CallStop x = Some y \<Longrightarrow> stopResult (service y) \<noteq> None"
  by (auto simp: supervisor_step_def stop_def Let_def split: option.splits prod.splits if_splits)

lemma supervisor_run_stop_called:
  "supervisor_run sid cfg cs x = Some y \<Longrightarrow>
   CallStop \<in> set cs \<or> stopResult (service x) \<noteq> None \<Longrightarrow> stopResult (service y) \<noteq> None"
proof (induction cs arbitrary: x)
  case Nil
  then show ?case by simp
next
  case (Cons c cs)
  from Cons.prems(1) obtain x1 where s: "supervisor_step sid cfg c x = Some x1"
    and r: "supervisor_run sid cfg cs x1 = Some y"
    by (auto split: option.splits)
  have "CallStop \<in> set cs \<or> stopResult (service x1) \<noteq> None"
    using Cons.prems(2) s supervisor_step_stop supervisor_step_stopResult_kept by auto
  with Cons.IH[OF r] show ?case .
qed

lemma supervisor_step_started:
  "supervisor_step sid cfg c x = Some y \<Longrightarrow>
   (startResult (service y) \<noteq> None) =
   (startResult (service x) \<noteq> None \<or> stopResult (service x) = None \<and> c = CallStart)"
proof (cases c)
  case (Happens l)
  assume "supervisor_step sid cfg c x = Some y"
  with Happens obtain evs where "service_step sid cfg (clock x) l (service x) = Some (service y, evs)"
    by (auto simp: supervisor_step_def split: option.splits)
  from service_step_startResult[OF this]
  have "(startResult (service y) = None) = (startResult (service x) = None)"
    by (metis option.map_disc_iff)
  with Happens show ?thesis by simp
qed (auto simp: supervisor_step_def start_def stop_def defineReady_def startProcess_def Let_def
      split: option.splits prod.splits if_splits)

lemma supervisor_step_stopped_iff:
  "supervisor_step sid cfg c x = Some y \<Longrightarrow>
   (stopResult (service y) = None) = (stopResult (service x) = None \<and> c \<noteq> CallStop)"
proof (cases c)
  case (Happens l)
  assume "supervisor_step sid cfg c x = Some y"
  with Happens obtain evs where "service_step sid cfg (clock x) l (service x) = Some (service y, evs)"
    by (auto simp: supervisor_step_def split: option.splits)
  from service_step_stopResult[OF this]
  have "(stopResult (service y) = None) = (stopResult (service x) = None)"
    by (metis option.map_disc_iff)
  with Happens show ?thesis by simp
qed (auto simp: supervisor_step_def start_def stop_def defineReady_def startProcess_def Let_def
      split: option.splits prod.splits if_splits)

lemma supervisor_run_started:
  "supervisor_run sid cfg cs x = Some y \<Longrightarrow>
   (startResult (service y) \<noteq> None) =
   (startResult (service x) \<noteq> None \<or>
    stopResult (service x) = None \<and> first_call cs = Some CallStart)"
proof (induction cs arbitrary: x)
  case Nil
  then show ?case by simp
next
  case (Cons c cs)
  from Cons.prems obtain x1 where s: "supervisor_step sid cfg c x = Some x1"
    and r: "supervisor_run sid cfg cs x1 = Some y"
    by (auto split: option.splits)
  show ?case
    unfolding Cons.IH[OF r] supervisor_step_started[OF s] supervisor_step_stopped_iff[OF s]
    by (cases c) auto
qed

text \<open>
  Claim C10. On a supervisor on which \<open>stop()\<close> has been called, \<open>start()\<close> changes
  nothing and spawns nothing: it logs the internal error and returns \<open>this.startResult\<close>,
  the value every earlier call of \<open>start()\<close> returned; when \<open>stop()\<close> was called before
  any \<open>start()\<close>, that value is \<open>undefined\<close>.
\<close>

theorem start_after_stop:
  assumes "supervisor_run sid cfg cs new_supervisor = Some x" and "CallStop \<in> set cs"
  shows "start (service x) =
           (service x, [InternalErrorLogged ''Cannot start after stopping''],
            map_option fst (startResult (service x))) \<and>
         (\<forall>t r. (t, StartReturned r) \<in> set (history x) \<longrightarrow>
            r = map_option fst (startResult (service x))) \<and>
         (first_call cs = Some CallStop \<longrightarrow> map_option fst (startResult (service x)) = None)"
proof -
  have "stopResult (service x) \<noteq> None"
    using supervisor_run_stop_called[OF assms(1)] assms(2) by simp
  then have a: "start (service x) =
           (service x, [InternalErrorLogged ''Cannot start after stopping''],
            map_option fst (startResult (service x)))"
    by (auto simp: start_def)
  have b: "\<forall>t r. (t, StartReturned r) \<in> set (history x) \<longrightarrow>
            r = map_option fst (startResult (service x))"
    using supervisor_inv_run[OF assms(1)] by (simp add: supervisor_inv_def)
  have c: "first_call cs = Some CallStop \<longrightarrow> map_option fst (startResult (service x)) = None"
    using supervisor_run_started[OF assms(1)]
    by (cases "startResult (service x)") (auto simp: new_supervisor_def new_service_def)
  from a b c show ?thesis by blast
qed

theorem start_after_stop_witness:
  "supervisor_run ''api'' example_config [CallStop, CallStart] new_supervisor \<noteq> None \<and>
   snd (snd (start (service (the (supervisor_run ''api'' example_config [CallStop, CallStart]
      new_supervisor))))) = None \<and>
   snd (snd (start (service (the (supervisor_run ''api'' example_config [CallStart, CallStop]
      new_supervisor))))) = Some 2"
proof -
  obtain x where x: "supervisor_run ''api'' example_config [CallStop, CallStart] new_supervisor = Some x"
    by (simp add: eval_defs)
  obtain y where y: "supervisor_run ''api'' example_config [CallStart, CallStop] new_supervisor = Some y"
    by (simp add: eval_defs)
  have "map_option fst (startResult (service y)) = Some 2"
    using y by (auto simp: eval_defs)
  then show ?thesis
    using start_after_stop[OF x] start_after_stop[OF y] x y by simp
qed

text \<open>
  Claim C4, as amended. In every run of a supervisor, every call of \<open>start()\<close> returns
  the same value and every call of \<open>stop()\<close> returns the same promise; \<open>stop()\<close> asks
  the process to end at most once; \<open>start()\<close> spawns at most one process: exactly one when
  the first call of \<open>start()\<close> comes before every call of \<open>stop()\<close>, and none otherwise.
\<close>

theorem start_stop_memoized:
  assumes "supervisor_run sid cfg cs new_supervisor = Some x"
  shows "(\<forall>t r t1 r1. (t, StartReturned r) \<in> set (history x) \<and>
             (t1, StartReturned r1) \<in> set (history x) \<longrightarrow> r = r1) \<and>
         (\<forall>t r t1 r1. (t, StopReturned r) \<in> set (history x) \<and>
             (t1, StopReturned r1) \<in> set (history x) \<longrightarrow> r = r1) \<and>
         length (filter is_start_spawn (map snd (history x))) =
           (if first_call cs = Some CallStart then 1 else 0) \<and>
         length (filter is_end_request (map snd (history x))) \<le> 1"
proof -
  have inv: "supervisor_inv x" using supervisor_inv_run[OF assms] .
  have s: "(startResult (service x) \<noteq> None) = (first_call cs = Some CallStart)"
    using supervisor_run_started[OF assms] by (simp add: new_supervisor_def new_service_def)
  have a: "\<forall>t r t1 r1. (t, StartReturned r) \<in> set (history x) \<and>
             (t1, StartReturned r1) \<in> set (history x) \<longrightarrow> r = r1"
    using inv unfolding supervisor_inv_def by metis
  have b: "\<forall>t r t1 r1. (t, StopReturned r) \<in> set (history x) \<and>
             (t1, StopReturned r1) \<in> set (history x) \<longrightarrow> r = r1"
    using inv unfolding supervisor_inv_def by (metis option.inject)
  have c: "length (filter is_start_spawn (map snd (history x))) =
           (if first_call cs = Some CallStart then 1 else 0)"
    using inv s unfolding supervisor_inv_def by auto
  have d: "length (filter is_end_request (map snd (history x))) \<le> 1"
    using inv unfolding supervisor_inv_def by (auto split: if_splits)
  from a b c d show ?thesis by blast
qed

theorem start_stop_memoized_witness:
  "map_option history (supervisor_run ''api'' example_config
      [CallStart, CallStart, CallStop, CallStart, CallStop] new_supervisor) =
   Some [(0, Did LogStarting), (0, Did (GateCreated 0)), (0, Did (Spawned 1 ByStart)),
         (0, StartReturned (Some 2)), (0, StartReturned (Some 2)),
         (0, Did LogStopping), (0, Did (EndRequested 1)), (0, StopReturned 3),
         (0, Did (InternalErrorLogged ''Cannot start after stopping'')),
         (0, StartReturned (Some 2)), (0, StopReturned 3)] \<and>
   length (filter is_start_spawn (map snd (history (the (supervisor_run ''api'' example_config
      [CallStart, CallStart, CallStop, CallStart, CallStop] new_supervisor))))) = 1"
proof -
  obtain x where x: "supervisor_run ''api'' example_config
      [CallStart, CallStart, CallStop, CallStart, CallStop] new_supervisor = Some x"
    by (simp add: eval_defs)
  have h: "map_option history (supervisor_run ''api'' example_config
      [CallStart, CallStart, CallStop, CallStart, CallStop] new_supervisor) =
   Some [(0, Did LogStarting), (0, Did (GateCreated 0)), (0, Did (Spawned 1 ByStart)),
         (0, StartReturned (Some 2)), (0, StartReturned (Some 2)),
         (0, Did LogStopping), (0, Did (EndRequested 1)), (0, StopReturned 3),
         (0, Did (InternalErrorLogged ''Cannot start after stopping'')),
         (0, StartReturned (Some 2)), (0, StopReturned 3)]"
    by (simp add: eval_defs)
  show ?thesis
    using start_stop_memoized[OF x] x h by simp
qed

text \<open>
  Claim C4 as stated fails: after \<open>stop()\<close>, two calls of \<open>start()\<close> spawn no process
  at all (and both return \<open>undefined\<close>).
\<close>

theorem start_without_spawn_counterexample:
  "map_option history (supervisor_run ''api'' example_config [CallStop, CallStart, CallStart]
      new_supervisor) =
   Some [(0, StopReturned 0),
         (0, Did (InternalErrorLogged ''Cannot start after stopping'')), (0, StartReturned None),
         (0, Did (InternalErrorLogged ''Cannot start after stopping'')), (0, StartReturned None)]"
  by (simp add: eval_defs)

subsection \<open>No restart after stop\<close>

lemma later_append: "history y = history x @ evs \<Longrightarrow> later x y = evs"
  by (simp add: later_def)

lemma supervisor_step_history:
  "supervisor_step sid cfg c x = Some y \<Longrightarrow> history y = history x @ later x y"
  by (cases c)
     (auto simp: supervisor_step_def later_def split: option.splits prod.splits)

lemma supervisor_run_history:
  "supervisor_run sid cfg cs x = Some y \<Longrightarrow> history y = history x @ later x y"
proof (induction cs arbitrary: x)
  case Nil
  then show ?case by (simp add: later_def)
next
  case (Cons c cs)
  from Cons.prems obtain x1 where s: "supervisor_step sid cfg c x = Some x1"
    and r: "supervisor_run sid cfg cs x1 = Some y"
    by (auto split: option.splits)
  have e: "history y = history x @ (later x x1 @ later x1 y)"
    using Cons.IH[OF r] supervisor_step_history[OF s] by simp
  from later_append[OF e] e show ?case by simp
qed

lemma later_trans:
  "history x1 = history x @ later x x1 \<Longrightarrow> history y = history x1 @ later x1 y \<Longrightarrow>
   later x y = later x x1 @ later x1 y"
  by (metis append.assoc later_append)

lemma stopped_step:
  assumes "stopResult (service x) \<noteq> None" and "supervisor_step sid cfg c x = Some y"
  shows "(\<forall>ob \<in> set (later x y). \<not> is_spawn (snd ob) \<and> snd ob \<noteq> Did LogRestarting) \<and>
         map_option handle_id (process (service y)) = map_option handle_id (process (service x))"
proof (cases c)
  case (Happens l)
  with assms(2) obtain s1 evs where st: "service_step sid cfg (clock x) l (service x) = Some (s1, evs)"
    and y: "y = x\<lparr>service := s1, history := history x @ observe (clock x) evs\<rparr>"
    by (auto simp: supervisor_step_def split: option.splits)
  have l: "later x y = observe (clock x) evs"
    by (simp add: y later_def)
  have "\<And>h w. Spawned h w \<notin> set evs" "LogRestarting \<notin> set evs"
    "map_option handle_id (process s1) = map_option handle_id (process (service x))"
    using service_step_stopped[OF st assms(1)] by blast+
  then show ?thesis
    unfolding l by (auto simp: observe_def y elim: is_spawn.elims)
next
  case CallStart
  with assms show ?thesis
    by (auto simp: supervisor_step_def start_def later_def observe_def)
next
  case CallStop
  with assms show ?thesis
    by (auto simp: supervisor_step_def stop_def later_def observe_def)
next
  case (Advance n)
  with assms show ?thesis
    by (auto simp: supervisor_step_def later_def)
qed

lemma stopped_run:
  "stopResult (service x) \<noteq> None \<Longrightarrow> supervisor_run sid cfg cs x = Some y \<Longrightarrow>
   (\<forall>ob \<in> set (later x y). \<not> is_spawn (snd ob) \<and> snd ob \<noteq> Did LogRestarting) \<and>
   map_option handle_id (process (service y)) = map_option handle_id (process (service x))"
proof (induction cs arbitrary: x)
  case Nil
  then show ?case by (simp add: later_def)
next
  case (Cons c cs)
  from Cons.prems obtain x1 where s: "supervisor_step sid cfg c x = Some x1"
    and r: "supervisor_run sid cfg cs x1 = Some y"
    by (auto split: option.splits)
  have k: "stopResult (service x1) \<noteq> None"
    using supervisor_step_stopResult_kept[OF s Cons.prems(1)] .
  have l: "later x y = later x x1 @ later x1 y"
    using later_trans[OF supervisor_step_history[OF s] supervisor_run_history[OF r]] .
  show ?case
    using stopped_step[OF Cons.prems(1) s] Cons.IH[OF k r] unfolding l by auto
qed

text \<open>
  Claim C8. Once \<open>stop()\<close> has been called on a supervisor, whatever state it was in
  (a crash not yet notified, \<open>handleCrash\<close> waiting for the hook or for the delay),
  nothing that happens afterwards spawns a process or logs a restart, and
  \<open>this.process\<close> stays the handle it was.
\<close>

theorem no_restart_after_stop:
  assumes "supervisor_step sid cfg CallStop x0 = Some x1"
    and "supervisor_run sid cfg cs x1 = Some x2"
  shows "history x2 = history x1 @ later x1 x2 \<and>
         (\<forall>ob \<in> set (later x1 x2). \<not> is_spawn (snd ob) \<and> snd ob \<noteq> Did LogRestarting) \<and>
         map_option handle_id (process (service x2)) =
           map_option handle_id (process (service x1))"
  using stopped_run[OF supervisor_step_stop[OF assms(1)] assms(2)]
    supervisor_run_history[OF assms(2)] by blast

theorem no_restart_after_stop_witness:
  "map_option history (supervisor_run ''api'' example_config
     (crashed_calls @ [Happens (CrashNotified []), Happens (CrashContinue 1),
       Happens (CrashContinue 1), CallStop, Advance 1000, Happens (CrashContinue 1)])
     new_supervisor) =
   Some [(0, Did LogStarting), (0, Did (GateCreated 0)), (0, Did (Spawned 1 ByStart)),
         (0, StartReturned (Some 2)), (0, Did LogStarted), (0, Did LogCrashed),
         (0, StopReturned 3)] \<and>
   map_option history (supervisor_run ''api'' example_config
     (crashed_calls @ [Happens (CrashNotified []), Happens (CrashContinue 1),
       CallStop, Happens (CrashContinue 1)])
     new_supervisor) =
   Some [(0, Did LogStarting), (0, Did (GateCreated 0)), (0, Did (Spawned 1 ByStart)),
         (0, StartReturned (Some 2)), (0, Did LogStarted), (0, Did LogCrashed),
         (0, StopReturned 3)] \<and>
   map_option history (supervisor_run ''api'' example_config
     (crashed_calls @ [CallStop, Happens (CrashNotified [])])
     new_supervisor) =
   Some [(0, Did LogStarting), (0, Did (GateCreated 0)), (0, Did (Spawned 1 ByStart)),
         (0, StartReturned (Some 2)), (0, Did LogStarted), (0, StopReturned 3),
         (0, Did (InternalErrorLogged ''Not expecting handleCrash called when stopping''))]"
proof -
  define x0 where "x0 = the (supervisor_run ''api'' example_config
     (crashed_calls @ [Happens (CrashNotified []), Happens (CrashContinue 1),
       Happens (CrashContinue 1)]) new_supervisor)"
  define x1 where "x1 = the (supervisor_step ''api'' example_config CallStop x0)"
  define x2 where "x2 = the (supervisor_run ''api'' example_config
      [Advance 1000, Happens (CrashContinue 1)] x1)"
  have s1: "supervisor_step ''api'' example_config CallStop x0 = Some x1"
    unfolding x1_def x0_def by (simp add: eval_defs crashed_calls_def)
  have s2: "supervisor_run ''api'' example_config
      [Advance 1000, Happens (CrashContinue 1)] x1 = Some x2"
    unfolding x2_def x1_def x0_def by (simp add: eval_defs crashed_calls_def)
  have h: "history x1 = [(0, Did LogStarting), (0, Did (GateCreated 0)), (0, Did (Spawned 1 ByStart)),
         (0, StartReturned (Some 2)), (0, Did LogStarted), (0, Did LogCrashed),
         (0, StopReturned 3)]"
    unfolding x1_def x0_def by (simp add: eval_defs crashed_calls_def)
  have l: "later x1 x2 = []"
    unfolding x2_def x1_def x0_def by (simp add: eval_defs crashed_calls_def)
  have a: "map_option history (supervisor_run ''api'' example_config
     (crashed_calls @ [Happens (CrashNotified []), Happens (CrashContinue 1),
       Happens (CrashContinue 1), CallStop, Advance 1000, Happens (CrashContinue 1)])
     new_supervisor) = Some (history x2)"
    unfolding x2_def x1_def x0_def by (simp add: eval_defs crashed_calls_def)
  have b: "history x2 = history x1"
    using no_restart_after_stop[OF s1 s2] l by simp
  have c: "map_option history (supervisor_run ''api'' example_config
     (crashed_calls @ [Happens (CrashNotified []), Happens (CrashContinue 1),
       CallStop, Happens (CrashContinue 1)])
     new_supervisor) =
   Some [(0, Did LogStarting), (0, Did (GateCreated 0)), (0, Did (Spawned 1 ByStart)),
         (0, StartReturned (Some 2)), (0, Did LogStarted), (0, Did LogCrashed),
         (0, StopReturned 3)]"
    by (simp add: eval_defs crashed_calls_def)
  have d: "map_option history (supervisor_run ''api'' example_config
     (crashed_calls @ [CallStop, Happens (CrashNotified [])])
     new_supervisor) =
   Some [(0, Did LogStarting), (0, Did (GateCreated 0)), (0, Did (Spawned 1 ByStart)),
         (0, StartReturned (Some 2)), (0, Did LogStarted), (0, StopReturned 3),
         (0, Did (InternalErrorLogged ''Not expecting handleCrash called when stopping''))]"
    by (simp add: eval_defs crashed_calls_def)
  show ?thesis
    using a b h c d by simp
qed

subsection \<open>Internal errors\<close>

lemma service_step_internal_error:
  "service_step sid cfg t l s = Some (s1, evs) \<Longrightarrow> InternalErrorLogged m \<in> set evs \<Longrightarrow>
   evs = [InternalErrorLogged m] \<and> stopResult s \<noteq> None \<and> (\<exists>tail. l = CrashNotified tail) \<and>
   stopResult s1 = stopResult s \<and> startResult s1 = startResult s"
  by (auto simp: step_defs Let_def split: step_splits)

text \<open>
  Claim C9, as amended. An internal error is logged in two places only, \<open>start()\<close> and
  \<open>handleCrash\<close> on a supervisor on which \<open>stop()\<close> has been called; the step that
  logs it calls no \<open>die\<close> and leaves \<open>startResult\<close> and \<open>stopResult\<close> as they were.
\<close>

theorem internal_error_only_logged:
  assumes "supervisor_step sid cfg c x = Some y"
    and "(t, Did (InternalErrorLogged m)) \<in> set (later x y)"
  shows "(\<forall>ob \<in> set (later x y). \<not> is_die (snd ob)) \<and>
         stopResult (service x) \<noteq> None \<and>
         (c = CallStart \<or> (\<exists>tail. c = Happens (CrashNotified tail))) \<and>
         stopResult (service y) = stopResult (service x) \<and>
         startResult (service y) = startResult (service x)"
proof (cases c)
  case (Happens l)
  with assms(1) obtain s1 evs where st: "service_step sid cfg (clock x) l (service x) = Some (s1, evs)"
    and y: "y = x\<lparr>service := s1, history := history x @ observe (clock x) evs\<rparr>"
    by (auto simp: supervisor_step_def split: option.splits)
  have l: "later x y = observe (clock x) evs"
    by (simp add: y later_def)
  have "InternalErrorLogged m \<in> set evs"
    using assms(2) unfolding l by (auto simp: observe_def)
  from service_step_internal_error[OF st this] show ?thesis
    unfolding l by (auto simp: observe_def y Happens)
next
  case CallStart
  with assms show ?thesis
    by (auto simp: supervisor_step_def start_def defineReady_def startProcess_def later_def
        observe_def Let_def split: option.splits prod.splits)
next
  case CallStop
  with assms show ?thesis
    by (auto simp: supervisor_step_def stop_def later_def observe_def Let_def
        split: option.splits prod.splits if_splits)
next
  case (Advance n)
  with assms show ?thesis
    by (auto simp: supervisor_step_def later_def)
qed

theorem internal_error_only_logged_witness:
  "map_option history (supervisor_run ''api'' example_config
     (crashed_calls @ [CallStop, Happens (CrashNotified [''boom''])]) new_supervisor) =
   Some [(0, Did LogStarting), (0, Did (GateCreated 0)), (0, Did (Spawned 1 ByStart)),
         (0, StartReturned (Some 2)), (0, Did LogStarted), (0, StopReturned 3),
         (0, Did (InternalErrorLogged ''Not expecting handleCrash called when stopping''))] \<and>
   map_option (stopResult \<circ> service) (supervisor_run ''api'' example_config
     (crashed_calls @ [CallStop, Happens (CrashNotified [''boom''])]) new_supervisor) =
   Some (Some (3, StopResolved))"
proof -
  define x where "x = the (supervisor_run ''api'' example_config
     (crashed_calls @ [CallStop]) new_supervisor)"
  define y where "y = the (supervisor_step ''api'' example_config
     (Happens (CrashNotified [''boom''])) x)"
  have s: "supervisor_step ''api'' example_config (Happens (CrashNotified [''boom''])) x = Some y"
    unfolding y_def x_def by (simp add: eval_defs crashed_calls_def)
  have l: "(0, Did (InternalErrorLogged ''Not expecting handleCrash called when stopping''))
      \<in> set (later x y)"
    unfolding y_def x_def by (simp add: eval_defs crashed_calls_def)
  have r: "supervisor_run ''api'' example_config
     (crashed_calls @ [CallStop, Happens (CrashNotified [''boom''])]) new_supervisor = Some y"
    unfolding y_def x_def by (simp add: eval_defs crashed_calls_def)
  have h: "history y =
    [(0, Did LogStarting), (0, Did (GateCreated 0)), (0, Did (Spawned 1 ByStart)),
         (0, StartReturned (Some 2)), (0, Did LogStarted), (0, StopReturned 3),
         (0, Did (InternalErrorLogged ''Not expecting handleCrash called when stopping''))]"
    unfolding y_def x_def by (simp add: eval_defs crashed_calls_def)
  have sx: "stopResult (service x) = Some (3, StopResolved)"
    unfolding x_def by (simp add: eval_defs crashed_calls_def)
  show ?thesis
    using internal_error_only_logged[OF s l] r h sx by simp
qed

text \<open>
  Claim C9 as stated fails: a crash callback after \<open>stop()\<close> and a \<open>start()\<close> after
  \<open>stop()\<close> each log their internal error, and \<open>die\<close> is never called.
\<close>

theorem internal_error_without_die_counterexample:
  "map_option history (supervisor_run ''api'' example_config
     (crashed_calls @ [CallStop, Happens (CrashNotified []), CallStart]) new_supervisor) =
   Some [(0, Did LogStarting), (0, Did (GateCreated 0)), (0, Did (Spawned 1 ByStart)),
         (0, StartReturned (Some 2)), (0, Did LogStarted), (0, StopReturned 3),
         (0, Did (InternalErrorLogged ''Not expecting handleCrash called when stopping'')),
         (0, Did (InternalErrorLogged ''Cannot start after stopping'')),
         (0, StartReturned (Some 2))]"
  by (simp add: eval_defs crashed_calls_def)

subsection \<open>Restart after a crash\<close>












section \<open>Properties of the orchestrator\<close>

lemma run_append:
  "run cfg (ls @ ms) st = (case run cfg ls st of None \<Rightarrow> None | Some st1 \<Rightarrow> run cfg ms st1)"
  by (induction ls arbitrary: st) (auto split: option.splits)

lemma run_induct:
  assumes "run cfg ls st = Some st1" and "P st"
    and "\<And>l a b. P a \<Longrightarrow> step cfg l a = Some b \<Longrightarrow> P b"
  shows "P st1"
  using assms(1,2)
proof (induction ls arbitrary: st)
  case Nil
  then show ?case by simp
next
  case (Cons l ls)
  then show ?case by (auto split: option.splits intro: assms(3))
qed

lemma die_stopping: "stopping (fst (die cfg m st))"
  by (simp add: die_def)

lemma die_when_stopping: "stopping st \<Longrightarrow> fst (die cfg m st) = st"
  by (simp add: die_def)

lemma die_fold:
  "fold (\<lambda>m x. fst (die cfg m x)) ms st =
   (case ms of [] \<Rightarrow> st | m # _ \<Rightarrow> fst (die cfg m st))"
proof (cases ms)
  case Nil
  then show ?thesis by simp
next
  case (Cons m ms1)
  have "fold (\<lambda>m x. fst (die cfg m x)) ms1 x = x" if "stopping x" for x
    using that by (induction ms1) (simp_all add: die_when_stopping)
  then show ?thesis using Cons by (simp add: die_stopping)
qed

lemma die_fields:
  "serviceMap (fst (die cfg m st)) = serviceMap st"
  "startTasks (fst (die cfg m st)) = startTasks st"
  "exitCode (fst (die cfg m st)) = exitCode st"
  "stoppedLogged (fst (die cfg m st)) = stoppedLogged st"
  "startedLogged (fst (die cfg m st)) = startedLogged st"
  "now (fst (die cfg m st)) = now st"
  "trace (fst (die cfg m st)) =
     trace st @ (if stopping st then [] else [LogError m, LogInfo ''Stopping composite service...''])"
  "stopTasks (fst (die cfg m st)) =
     (if stopping st then stopTasks st
      else (\<lambda>q. if stop_call cfg q then Some AwaitDependents else None))"
  by (simp_all add: die_def)

text \<open>The shapes of a step of a composite run.\<close>

lemma step_cases [consumes 1, case_names Failed Park Invoke Done StopInvoke StopDone Die Inside Other]:
  assumes "step cfg l st = Some st1"
  obtains
    p where "l = ResumeStart p" "startTasks st p = Some AwaitDeps"
      "\<exists>d \<in> set (deps_of cfg (hd p)). child_state cfg st (d # p) = Some StartFailed"
      "st1 = st\<lparr>startTasks := (startTasks st)(p \<mapsto> StartFailed)\<rparr>"
  | p where "l = ResumeStart p" "startTasks st p = Some AwaitDeps" "stopping st"
      "st1 = st\<lparr>startTasks := (startTasks st)(p \<mapsto> Parked)\<rparr>"
  | p s1 evs r where "l = ResumeStart p" "startTasks st p = Some AwaitDeps" "\<not> stopping st"
      "list_all (\<lambda>d. child_state cfg st (d # p) = Some StartDone) (deps_of cfg (hd p))"
      "start (serviceMap st (hd p)) = (s1, evs, r)"
      "st1 = st\<lparr>serviceMap := (serviceMap st)(hd p := s1),
                 startTasks := (startTasks st)(p \<mapsto> AwaitStart r),
                 trace := trace st @ StartInvoked p # map (Service (hd p)) evs\<rparr>"
  | p r where "l = ResumeStart p" "startTasks st p = Some (AwaitStart r)"
      "start_outcome_resolved (serviceMap st (hd p)) r"
      "st1 = st\<lparr>startTasks := (startTasks st)(p \<mapsto> StartDone),
                 trace := trace st @ [StartServiceDone p]\<rparr>"
  | q s1 evs r where "l = ResumeStop q" "stopTasks st q = Some AwaitDependents"
      "list_all (\<lambda>d. stopTasks st (d # q) = Some StopDone) (dependents cfg (hd q))"
      "stop (serviceMap st (hd q)) = (s1, evs, r)"
      "st1 = st\<lparr>serviceMap := (serviceMap st)(hd q := s1),
                 stopTasks := (stopTasks st)(q \<mapsto> AwaitStop r),
                 trace := trace st @ StopInvoked q # map (Service (hd q)) evs\<rparr>"
  | q r where "l = ResumeStop q" "stopTasks st q = Some (AwaitStop r)"
      "stopResult (serviceMap st (hd q)) = Some (r, StopResolved)"
      "st1 = st\<lparr>stopTasks := (stopTasks st)(q \<mapsto> StopDone),
                 trace := trace st @ [StopServiceDone q]\<rparr>"
  | m where "st1 = fst (die cfg m st)"
  | sid l1 c s1 evs where "l = Inside sid l1" "map_of cfg sid = Some c"
      "service_step sid c (now st) l1 (serviceMap st sid) = Some (s1, evs)"
      "st1 = (case die_calls evs of
                [] \<Rightarrow> st\<lparr>serviceMap := (serviceMap st)(sid := s1),
                          trace := trace st @ map (Service sid) evs\<rparr>
              | m # _ \<Rightarrow> fst (die cfg m
                          (st\<lparr>serviceMap := (serviceMap st)(sid := s1),
                             trace := trace st @ map (Service sid) evs\<rparr>)))"
  | new where "stopping st1 = stopping st" "serviceMap st1 = serviceMap st"
      "startTasks st1 = startTasks st" "stopTasks st1 = stopTasks st"
      "trace st1 = trace st @ new"
      "set new \<subseteq> {LogInfo ''Started composite service'', LogInfo ''Stopped composite service'',
         ProcessExit 1}"
      "stoppedLogged st1 \<longrightarrow> stoppedLogged st \<or>
         (stopping st \<and> list_all (\<lambda>s. stopTasks st [s] = Some StopDone) (service_ids cfg))"
      "exitCode st1 = None \<or> (exitCode st1 = Some 1 \<and> stoppedLogged st)"
      "stoppedLogged st \<longrightarrow> stoppedLogged st1"
proof (cases l)
  case (ResumeStart p)
  with assms have r: "resume_start cfg p st = Some st1"
    by (simp add: step_def split: if_splits)
  show ?thesis
  proof (cases "startTasks st p")
    case None
    with r show ?thesis by (simp add: resume_start_def)
  next
    case (Some a)
    show ?thesis
    proof (cases a)
      case AwaitDeps
      obtain s1 evs r1 where s: "start (serviceMap st (hd p)) = (s1, evs, r1)"
        by (metis prod_cases3)
      have e: "(Some StartFailed \<in> set (map (\<lambda>d. child_state cfg st (d # p)) (deps_of cfg (hd p))))
          = (\<exists>d \<in> set (deps_of cfg (hd p)). child_state cfg st (d # p) = Some StartFailed)"
        by (force simp: image_iff)
      have g: "list_all (\<lambda>c. c = Some StartDone)
            (map (\<lambda>d. child_state cfg st (d # p)) (deps_of cfg (hd p)))
          = list_all (\<lambda>d. child_state cfg st (d # p) = Some StartDone) (deps_of cfg (hd p))"
        by (simp add: list_all_iff)
      show ?thesis
      proof (cases "\<exists>d \<in> set (deps_of cfg (hd p)). child_state cfg st (d # p) = Some StartFailed")
        case True
        with r Some AwaitDeps e have "st1 = st\<lparr>startTasks := (startTasks st)(p \<mapsto> StartFailed)\<rparr>"
          by (simp add: resume_start_def Let_def)
        from that(1)[OF ResumeStart _ True this] Some AwaitDeps show ?thesis by simp
      next
        case False
        with r Some AwaitDeps e g s
        have d: "list_all (\<lambda>d. child_state cfg st (d # p) = Some StartDone) (deps_of cfg (hd p))"
          and v: "st1 = (if stopping st then st\<lparr>startTasks := (startTasks st)(p \<mapsto> Parked)\<rparr>
             else st\<lparr>serviceMap := (serviceMap st)(hd p := s1),
                 startTasks := (startTasks st)(p \<mapsto> AwaitStart r1),
                 trace := trace st @ StartInvoked p # map (Service (hd p)) evs\<rparr>)"
          by (simp_all add: resume_start_def Let_def split: if_splits)
        show ?thesis
        proof (cases "stopping st")
          case True
          with v that(2)[OF ResumeStart _ True] Some AwaitDeps show ?thesis by simp
        next
          case False
          with v that(3)[OF ResumeStart _ False d s] Some AwaitDeps show ?thesis by simp
        qed
      qed
    next
      case (AwaitStart r1)
      with r Some show ?thesis
        using that(4)[of p r1] ResumeStart
        by (auto simp: resume_start_def split: if_splits)
    qed (use r Some in \<open>simp_all add: resume_start_def\<close>)
  qed
next
  case (ResumeStop q)
  with assms have r: "resume_stop cfg q st = Some st1"
    by (simp add: step_def split: if_splits)
  show ?thesis
  proof (cases "stopTasks st q")
    case None
    with r show ?thesis by (simp add: resume_stop_def)
  next
    case (Some a)
    show ?thesis
    proof (cases a)
      case AwaitDependents
      obtain s1 evs r1 where s: "stop (serviceMap st (hd q)) = (s1, evs, r1)"
        by (metis prod_cases3)
      from r Some AwaitDependents s show ?thesis
        using that(5)[of q s1 evs r1] ResumeStop
        by (auto simp: resume_stop_def Let_def split: if_splits)
    next
      case (AwaitStop r1)
      with r Some show ?thesis
        using that(6)[of q r1] ResumeStop
        by (auto simp: resume_stop_def split: if_splits)
    next
      case StopDone
      with r Some show ?thesis by (simp add: resume_stop_def)
    qed
  qed
next
  case (Signal sig)
  with assms show ?thesis
    using that(7) by (auto simp: step_def split: if_splits)
next
  case (Inside sid l1)
  with assms show ?thesis
    using that(8)[of sid l1]
    by (auto simp: step_def inside_def die_fold split: if_splits option.splits)
next
  case (Tick n)
  with assms show ?thesis
    using that(9)[of "[]"] by (auto simp: step_def split: if_splits)
next
  case AllStarted
  with assms show ?thesis
    using that(9)[of "[LogInfo ''Started composite service'']"]
    by (auto simp: step_def split: if_splits)
next
  case AllStopped
  with assms show ?thesis
    using that(9)[of "[LogInfo ''Stopped composite service'']"]
    by (auto simp: step_def split: if_splits)
next
  case ExitNow
  with assms show ?thesis
    using that(9)[of "[ProcessExit 1]"]
    by (auto simp: step_def split: if_splits)
qed

lemma step_running: "step cfg l st = Some st1 \<Longrightarrow> exitCode st = None"
  by (simp add: step_def split: if_splits)

lemmas run_defs = step_def resume_start_def resume_stop_def inside_def die_def construct_def
  child_state_def start_outcome_resolved_def service_ids_def deps_of_def dependents_def
  start_def stop_def defineReady_def step_defs new_service_def default_onCrash_def
  example_config_def one_service_def two_services_def quote_def die_message_def Let_def

subsection \<open>The fatal entry point\<close>

lemma step_stopping:
  assumes "step cfg l st = Some st1" and "stopping st"
  shows "stopping st1"
  using assms by (cases rule: step_cases) (auto simp: die_stopping split: list.splits)

lemma run_stopping: "run cfg ls st = Some st1 \<Longrightarrow> stopping st \<Longrightarrow> stopping st1"
  by (erule run_induct) (auto intro: step_stopping)

text \<open>
  Claim C5. The first call of \<open>die\<close> sets the stopping flag, logs the message and
  calls \<open>stopService\<close> for every service; a call of \<open>die\<close> when the flag is set
  changes nothing, so any number of calls in a row do what the first does, and so does
  any call at any later moment of the run; and what \<open>die\<close> returns is \<open>never()\<close>,
  which is settled in no state.
\<close>

theorem die_once:
  "(\<not> stopping st \<longrightarrow>
      fst (die cfg m st) =
        st\<lparr>stopping := True,
           trace := trace st @ [LogError m, LogInfo ''Stopping composite service...''],
           stopTasks := (\<lambda>q. if stop_call cfg q then Some AwaitDependents else None)\<rparr> \<and>
      list_all (\<lambda>s. stopTasks (fst (die cfg m st)) [s] = Some AwaitDependents) (service_ids cfg)) \<and>
   (stopping st \<longrightarrow> fst (die cfg m st) = st) \<and>
   fold (\<lambda>m x. fst (die cfg m x)) (m # ms) st = fst (die cfg m st) \<and>
   (\<forall>ls st1 m1. run cfg ls (fst (die cfg m st)) = Some st1 \<longrightarrow> fst (die cfg m1 st1) = st1) \<and>
   snd (die cfg m st) = never \<and>
   (\<forall>st1. \<not> settled st1 (snd (die cfg m st)))"
proof -
  have a: "\<not> stopping st \<longrightarrow>
      fst (die cfg m st) =
        st\<lparr>stopping := True,
           trace := trace st @ [LogError m, LogInfo ''Stopping composite service...''],
           stopTasks := (\<lambda>q. if stop_call cfg q then Some AwaitDependents else None)\<rparr> \<and>
      list_all (\<lambda>s. stopTasks (fst (die cfg m st)) [s] = Some AwaitDependents) (service_ids cfg)"
    by (simp add: die_def list_all_iff)
  have b: "fold (\<lambda>m x. fst (die cfg m x)) (m # ms) st = fst (die cfg m st)"
    by (simp only: die_fold list.case)
  have c: "fst (die cfg m1 st1) = st1" if "run cfg ls (fst (die cfg m st)) = Some st1"
    for ls st1 m1
    using run_stopping[OF that die_stopping] by (rule die_when_stopping)
  have d: "snd (die cfg m st) = never" "\<not> settled st1 (snd (die cfg m st))" for st1
    by (simp_all add: die_def never_def settled_def)
  from a b c d die_when_stopping show ?thesis by blast
qed

theorem die_once_witness:
  "trace (fst (die one_service ''first'' (construct (Inr one_service)))) =
     [LogInfo ''Starting composite service...'', LogError ''first'',
      LogInfo ''Stopping composite service...''] \<and>
   stopTasks (fst (die one_service ''first'' (construct (Inr one_service)))) [''api''] =
     Some AwaitDependents \<and>
   fst (die one_service ''second'' (fst (die one_service ''first'' (construct (Inr one_service)))))
     = fst (die one_service ''first'' (construct (Inr one_service))) \<and>
   map_option trace (run one_service [ResumeStop [''api''], Signal ''SIGTERM'']
      (fst (die one_service ''first'' (construct (Inr one_service))))) =
     Some [LogInfo ''Starting composite service...'', LogError ''first'',
      LogInfo ''Stopping composite service...'', StopInvoked [''api'']]"
proof -
  have n: "\<not> stopping (construct (Inr one_service))"
    by (simp add: construct_def)
  have s: "stopping (fst (die one_service ''first'' (construct (Inr one_service))))"
    by (simp add: die_def)
  have t: "map_option trace (run one_service [ResumeStop [''api''], Signal ''SIGTERM'']
      (fst (die one_service ''first'' (construct (Inr one_service))))) =
     Some [LogInfo ''Starting composite service...'', LogError ''first'',
      LogInfo ''Stopping composite service...'', StopInvoked [''api'']]"
    by (simp add: run_defs)
  show ?thesis
    using die_once[of "construct (Inr one_service)" one_service "''first''" "[]"]
      die_once[of "fst (die one_service ''first'' (construct (Inr one_service)))" one_service
        "''second''" "[]"] n s t
    by (simp add: construct_def service_ids_def one_service_def)
qed

subsection \<open>The exit status\<close>

lemma exit_inv_step:
  assumes "step cfg l st = Some st1" and "exit_inv cfg st"
  shows "exit_inv cfg st1"
proof -
  have n: "exitCode st = None" using step_running[OF assms(1)] .
  from assms(1) show ?thesis
  proof (cases rule: step_cases)
    case (StopInvoke q s1 evs r)
    then show ?thesis using assms(2) n
      by (auto simp: exit_inv_def list_all_iff)
  next
    case (StopDone q r)
    then show ?thesis using assms(2) n
      by (auto simp: exit_inv_def list_all_iff)
  next
    case (Die m)
    then show ?thesis using assms(2) n
      by (cases "stopping st") (auto simp: exit_inv_def die_fields die_when_stopping)
  next
    case (Inside sid l1 c s1 evs)
    let ?b = "st\<lparr>serviceMap := (serviceMap st)(sid := s1),
                  trace := trace st @ map (Service sid) evs\<rparr>"
    have b: "exit_inv cfg ?b" using assms(2) by (simp add: exit_inv_def)
    have "exit_inv cfg (fst (die cfg m ?b))" for m
      using b n by (cases "stopping st") (auto simp: exit_inv_def die_fields die_when_stopping)
    with b Inside(4) show ?thesis by (auto split: list.splits)
  next
    case (Other new)
    then show ?thesis using assms(2) n
      by (auto simp: exit_inv_def)
  qed (use assms(2) n in \<open>auto simp: exit_inv_def\<close>)
qed

lemma exit_inv_run:
  "run cfg ls (construct (Inr cfg)) = Some st \<Longrightarrow> exit_inv cfg st"
proof (erule run_induct[where P = "exit_inv cfg"])
  show "exit_inv cfg (construct (Inr cfg))"
    by (simp add: exit_inv_def construct_def)
qed (rule exit_inv_step)

text \<open>
  Claim C6, as amended. A configuration that fails validation exits with status 1. In a
  run, the process exits only with status 1, only after \<open>die\<close> has set the stopping flag and
  \<open>stopService\<close> has returned for every service. The handlers of \<open>SIGINT\<close> and
  \<open>SIGTERM\<close> call the same \<open>die\<close>: a shutdown on a signal exits with status 1
  too, and no run exits with status 0.
\<close>

theorem exit_code:
  "exitCode (construct (Inl e)) = Some 1 \<and>
   (\<forall>ls st c. run cfg ls (construct (Inr cfg)) = Some st \<and> exitCode st = Some c \<longrightarrow>
      c = 1 \<and> stopping st \<and>
      list_all (\<lambda>s. stopTasks st [s] = Some StopDone) (service_ids cfg)) \<and>
   (\<forall>st sig. exitCode st = None \<and> (sig = ''SIGINT'' \<or> sig = ''SIGTERM'') \<longrightarrow>
      step cfg (Signal sig) st =
        Some (fst (die cfg (''Received shutdown signal '' @ quote sig) st)))"
proof -
  have a: "exitCode (construct (Inl e)) = Some 1"
    by (simp add: construct_def)
  have b: "c = 1 \<and> stopping st \<and>
      list_all (\<lambda>s. stopTasks st [s] = Some StopDone) (service_ids cfg)"
    if "run cfg ls (construct (Inr cfg)) = Some st" "exitCode st = Some c" for ls st c
    using exit_inv_run[OF that(1)] that(2) by (simp add: exit_inv_def)
  have c: "step cfg (Signal sig) st =
        Some (fst (die cfg (''Received shutdown signal '' @ quote sig) st))"
    if "exitCode st = None" "sig = ''SIGINT'' \<or> sig = ''SIGTERM''" for st sig
    using that by (auto simp: step_def)
  from a b c show ?thesis by blast
qed

theorem exit_code_witness:
  "map_option exitCode (run one_service signal_run (construct (Inr one_service))) =
     Some (Some 1) \<and>
   map_option stopping (run one_service signal_run (construct (Inr one_service))) = Some True \<and>
   map_option exitCode (run one_service fatal_run (construct (Inr one_service))) =
     Some (Some 1)"
proof -
  define x where "x = the (run one_service signal_run (construct (Inr one_service)))"
  have r: "run one_service signal_run (construct (Inr one_service)) = Some x"
    unfolding x_def by (simp add: run_defs signal_run_def)
  have e: "exitCode x = Some 1"
    unfolding x_def by (simp add: run_defs signal_run_def)
  have f: "map_option exitCode (run one_service fatal_run (construct (Inr one_service))) =
     Some (Some 1)"
    by (simp add: run_defs fatal_run_def)
  have "stopping x"
    using exit_code[of undefined one_service] r e by blast
  then show ?thesis using r e f by simp
qed

text \<open>
  Claim C6 as stated fails: the service starts, \<open>SIGTERM\<close> arrives, the service is
  stopped with no error of any kind, and the process exits with status 1, not 0.
\<close>

theorem voluntary_shutdown_exits_one_counterexample:
  "map_option trace (run one_service
     [ResumeStart [''api''], Inside ''api'' (ProcStarted 1), Inside ''api'' ReadyFulfils,
      Inside ''api'' StartChain, ResumeStart [''api''], AllStarted, Signal ''SIGTERM'',
      ResumeStop [''api''], Inside ''api'' ProcExited, Inside ''api'' StopChain,
      ResumeStop [''api''], AllStopped, ExitNow] (construct (Inr one_service))) =
   Some [LogInfo ''Starting composite service...'', StartInvoked [''api''],
         Service ''api'' LogStarting, Service ''api'' (GateCreated 0),
         Service ''api'' (Spawned 1 ByStart), Service ''api'' LogStarted,
         StartServiceDone [''api''], LogInfo ''Started composite service'',
         LogError (''Received shutdown signal '' @ quote ''SIGTERM''),
         LogInfo ''Stopping composite service...'', StopInvoked [''api''],
         Service ''api'' LogStopping, Service ''api'' (EndRequested 1),
         Service ''api'' LogStopped, StopServiceDone [''api''],
         LogInfo ''Stopped composite service'', ProcessExit 1] \<and>
   map_option exitCode (run one_service
     [ResumeStart [''api''], Inside ''api'' (ProcStarted 1), Inside ''api'' ReadyFulfils,
      Inside ''api'' StartChain, ResumeStart [''api''], AllStarted, Signal ''SIGTERM'',
      ResumeStop [''api''], Inside ''api'' ProcExited, Inside ''api'' StopChain,
      ResumeStop [''api''], AllStopped, ExitNow] (construct (Inr one_service))) =
   Some (Some 1)"
  by (simp add: run_defs)

subsection \<open>Starting after shutdown has begun\<close>

lemma deps_known:
  "closed_config cfg \<Longrightarrow> d \<in> set (deps_of cfg s) \<Longrightarrow> d \<in> set (service_ids cfg)"
proof (cases "map_of cfg s")
  case None
  assume "d \<in> set (deps_of cfg s)"
  with None show ?thesis by (simp add: deps_of_def)
next
  case (Some c)
  then have "s \<in> set (service_ids cfg)"
    by (auto simp: service_ids_def dest: map_of_SomeD intro: rev_image_eqI)
  moreover assume "closed_config cfg" "d \<in> set (deps_of cfg s)"
  ultimately show ?thesis by (auto simp: closed_config_def list_all_iff)
qed

lemma start_tasks_ok_step:
  assumes "step cfg l st = Some st1" and "start_tasks_ok cfg st"
  shows "start_tasks_ok cfg st1"
  using assms(1)
proof (cases rule: step_cases)
  case (Failed p)
  from Failed(3) obtain d where d: "d \<in> set (deps_of cfg (hd p))"
    "child_state cfg st (d # p) = Some StartFailed" by blast
  have "\<not> closed_config cfg"
  proof
    assume c: "closed_config cfg"
    have "d \<in> set (service_ids cfg)" using deps_known[OF c d(1)] .
    with d(2) have "startTasks st (d # p) = Some StartFailed" by (simp add: child_state_def)
    with c assms(2) show False by (simp add: start_tasks_ok_def)
  qed
  with Failed assms(2) show ?thesis by (auto simp: start_tasks_ok_def)
next
  case (Inside sid l1 c s1 evs)
  with assms(2) show ?thesis
    by (auto simp: start_tasks_ok_def die_fields split: list.splits)
qed (use assms(2) in \<open>auto simp: start_tasks_ok_def die_fields\<close>)

lemma start_tasks_ok_run:
  "run cfg ls (construct (Inr cfg)) = Some st \<Longrightarrow> start_tasks_ok cfg st"
proof (erule run_induct[where P = "start_tasks_ok cfg"])
  show "start_tasks_ok cfg (construct (Inr cfg))"
    by (simp add: start_tasks_ok_def construct_def)
qed (rule start_tasks_ok_step)

lemma stop_events:
  "stop s = (s1, evs, r) \<Longrightarrow> e \<in> set evs \<Longrightarrow> e = LogStopping \<or> (\<exists>h. e = EndRequested h)"
  by (auto simp: stop_def Let_def split: option.splits prod.splits if_splits)

lemma service_step_no_start:
  "service_step sid c t l s = Some (s1, evs) \<Longrightarrow> e \<in> set evs \<Longrightarrow>
   e \<noteq> LogStarting \<and> (\<forall>h. e \<noteq> Spawned h ByStart)"
  using service_step_events[of sid c t l s s1 evs e] by (cases e) auto

lemma later_trace_append: "trace st1 = trace st @ new \<Longrightarrow> later_trace st st1 = new"
  by (simp add: later_trace_def)

lemma step_trace: "step cfg l st = Some st1 \<Longrightarrow> trace st1 = trace st @ later_trace st st1"
  by (cases rule: step_cases)
     (auto simp: later_trace_def die_fields split: list.splits)

lemma run_trace: "run cfg ls st = Some st1 \<Longrightarrow> trace st1 = trace st @ later_trace st st1"
proof (induction ls arbitrary: st)
  case Nil
  then show ?case by (simp add: later_trace_def)
next
  case (Cons l ls)
  from Cons.prems obtain x where s: "step cfg l st = Some x" and r: "run cfg ls x = Some st1"
    by (auto split: option.splits)
  have e: "trace st1 = trace st @ (later_trace st x @ later_trace x st1)"
    using Cons.IH[OF r] step_trace[OF s] by simp
  from later_trace_append[OF e] e show ?case by simp
qed

lemma later_trace_trans:
  "trace x = trace st @ later_trace st x \<Longrightarrow> trace st1 = trace x @ later_trace x st1 \<Longrightarrow>
   later_trace st st1 = later_trace st x @ later_trace x st1"
  by (metis append.assoc later_trace_append)

lemma parked_step:
  assumes "step cfg l st = Some st1" and "stopping st"
    and "startTasks st p = Some AwaitDeps \<or> startTasks st p = Some Parked \<or>
         startTasks st p = Some StartFailed"
  shows "stopping st1 \<and>
         (startTasks st1 p = Some AwaitDeps \<or> startTasks st1 p = Some Parked \<or>
          startTasks st1 p = Some StartFailed) \<and>
         (\<forall>e \<in> set (later_trace st st1).
            (\<forall>q. e \<noteq> StartInvoked q) \<and> (\<forall>s h. e \<noteq> Service s (Spawned h ByStart)) \<and>
            (\<forall>s. e \<noteq> Service s LogStarting) \<and> e \<noteq> StartServiceDone p)"
  using assms(1)
proof (cases rule: step_cases)
  case (StopInvoke q s1 evs r)
  then show ?thesis using assms(2,3) stop_events[OF StopInvoke(4)]
    by (auto simp: later_trace_def)
next
  case (Die m)
  then show ?thesis using assms(2,3)
    by (simp add: later_trace_def die_when_stopping)
next
  case (Inside sid l1 c s1 evs)
  let ?b = "st\<lparr>serviceMap := (serviceMap st)(sid := s1),
                trace := trace st @ map (Service sid) evs\<rparr>"
  have "stopping ?b" using assms(2) by simp
  then have "st1 = ?b" using Inside(4) by (simp add: die_when_stopping split: list.splits)
  then show ?thesis using assms(2,3) service_step_no_start[OF Inside(3)]
    by (auto simp: later_trace_def)
next
  case (Other new)
  then show ?thesis using assms(2,3)
    by (auto simp: later_trace_def)
qed (use assms(2,3) in \<open>auto simp: later_trace_def\<close>)

lemma parked_run:
  assumes "run cfg ls st = Some st1" and "stopping st"
    and "startTasks st p = Some AwaitDeps \<or> startTasks st p = Some Parked \<or>
         startTasks st p = Some StartFailed"
  shows "(startTasks st1 p = Some AwaitDeps \<or> startTasks st1 p = Some Parked \<or>
          startTasks st1 p = Some StartFailed) \<and>
         (\<forall>e \<in> set (later_trace st st1).
            (\<forall>q. e \<noteq> StartInvoked q) \<and> (\<forall>s h. e \<noteq> Service s (Spawned h ByStart)) \<and>
            (\<forall>s. e \<noteq> Service s LogStarting) \<and> e \<noteq> StartServiceDone p)"
  using assms
proof (induction ls arbitrary: st)
  case Nil
  then show ?case by (simp add: later_trace_def)
next
  case (Cons l ls)
  from Cons.prems(1) obtain x where s: "step cfg l st = Some x" and r: "run cfg ls x = Some st1"
    by (auto split: option.splits)
  note a = parked_step[OF s Cons.prems(2,3)]
  have b: "later_trace st st1 = later_trace st x @ later_trace x st1"
    using later_trace_trans[OF step_trace[OF s] run_trace[OF r]] .
  from a have c: "stopping x" "startTasks x p = Some AwaitDeps \<or> startTasks x p = Some Parked \<or>
         startTasks x p = Some StartFailed" by blast+
  show ?case
    using a Cons.IH[OF r c] unfolding b by auto
qed

text \<open>
  Claim C2. Take a moment of a run when the stopping flag is set and a call of
  \<open>startService\<close> is still at \<open>await Promise.all(...)\<close>. Whatever happens
  afterwards, that call stays there, or is at \<open>await never()\<close>, or was rejected
  because a dependency names no service (which a closed configuration excludes): it
  never calls \<open>start()\<close> and never returns. And from that moment no call of
  \<open>startService\<close> calls \<open>start()\<close>, no service logs that it is starting, and no
  process is spawned by \<open>start()\<close>.
\<close>

theorem parked_forever:
  assumes "run cfg ls (construct (Inr cfg)) = Some st" and "stopping st"
    and "startTasks st p = Some AwaitDeps"
    and "run cfg ls1 st = Some st1"
  shows "(startTasks st1 p = Some AwaitDeps \<or> startTasks st1 p = Some Parked \<or>
          startTasks st1 p = Some StartFailed) \<and>
         (closed_config cfg \<longrightarrow> \<not> settled st1 (StartServicePromise p)) \<and>
         trace st1 = trace st @ later_trace st st1 \<and>
         (\<forall>e \<in> set (later_trace st st1).
            (\<forall>q. e \<noteq> StartInvoked q) \<and> (\<forall>s h. e \<noteq> Service s (Spawned h ByStart)) \<and>
            (\<forall>s. e \<noteq> Service s LogStarting) \<and> e \<noteq> StartServiceDone p)"
proof -
  note a = parked_run[OF assms(4,2), of p]
  have r: "run cfg (ls @ ls1) (construct (Inr cfg)) = Some st1"
    using assms(1,4) by (simp add: run_append)
  have "closed_config cfg \<longrightarrow> startTasks st1 p \<noteq> Some StartFailed"
    using start_tasks_ok_run[OF r] by (simp add: start_tasks_ok_def)
  then have b: "closed_config cfg \<longrightarrow> \<not> settled st1 (StartServicePromise p)"
    using a assms(3) by (auto simp: settled_def)
  from a b run_trace[OF assms(4)] assms(3) show ?thesis by blast
qed

theorem parked_forever_witness:
  "startTasks (the (run two_services (start_scenario @ [Signal ''SIGINT''])
      (construct (Inr two_services)))) [''web''] = Some AwaitDeps \<and>
   startTasks (the (run two_services
      (start_scenario @ [Signal ''SIGINT'', ResumeStart [''web''], Inside ''api'' ProcExited])
      (construct (Inr two_services)))) [''web''] = Some Parked \<and>
   \<not> settled (the (run two_services
      (start_scenario @ [Signal ''SIGINT'', ResumeStart [''web''], Inside ''api'' ProcExited])
      (construct (Inr two_services)))) (StartServicePromise [''web'']) \<and>
   run two_services
      (start_scenario @ [Signal ''SIGINT'', ResumeStart [''web''], ResumeStart [''web'']])
      (construct (Inr two_services)) = None"
proof -
  define st where "st = the (run two_services (start_scenario @ [Signal ''SIGINT''])
      (construct (Inr two_services)))"
  define st1 where "st1 = the (run two_services [ResumeStart [''web''], Inside ''api'' ProcExited] st)"
  have r: "run two_services (start_scenario @ [Signal ''SIGINT'']) (construct (Inr two_services))
      = Some st"
    unfolding st_def by (simp add: run_defs start_scenario_def)
  have s: "stopping st" "startTasks st [''web''] = Some AwaitDeps"
    unfolding st_def by (simp_all add: run_defs start_scenario_def)
  have r1: "run two_services [ResumeStart [''web''], Inside ''api'' ProcExited] st = Some st1"
    unfolding st1_def st_def by (simp add: run_defs start_scenario_def)
  have p: "startTasks st1 [''web''] = Some Parked"
    unfolding st1_def st_def by (simp add: run_defs start_scenario_def)
  have c: "closed_config two_services"
    by (simp add: closed_config_def two_services_def service_ids_def deps_of_def)
  have e: "run two_services
      (start_scenario @ [Signal ''SIGINT'', ResumeStart [''web''], Inside ''api'' ProcExited])
      (construct (Inr two_services)) = Some st1"
    unfolding st1_def st_def by (simp add: run_defs start_scenario_def)
  have n: "run two_services
      (start_scenario @ [Signal ''SIGINT'', ResumeStart [''web''], ResumeStart [''web'']])
      (construct (Inr two_services)) = None"
    by (simp add: run_defs start_scenario_def)
  show ?thesis
    using parked_forever[OF r s r1] c r e p n s by simp
qed

subsection \<open>The order of starting\<close>

lemma preceded_by_append:
  assumes "preceded_by a b tr" and "b \<in> set new \<Longrightarrow> a \<in> set tr"
  shows "preceded_by a b (tr @ new)"
  unfolding preceded_by_def
proof (intro allI impI)
  fix pre post
  assume e: "tr @ new = pre @ b # post"
  then consider us where "tr = pre @ us" "us @ new = b # post"
    | us where "tr @ us = pre" "new = us @ b # post"
    by (auto simp: append_eq_append_conv2)
  then show "a \<in> set pre"
  proof cases
    case 1
    show ?thesis
    proof (cases us)
      case Nil
      with 1 have "b \<in> set new" "pre = tr" by auto
      with assms(2) show ?thesis by simp
    next
      case (Cons u us1)
      with 1 have "tr = pre @ b # us1" by simp
      with assms(1) show ?thesis by (simp add: preceded_by_def)
    qed
  next
    case 2
    then have "b \<in> set new" by auto
    with assms(2) 2(1) show ?thesis by auto
  qed
qed

lemma preceded_byD:
  assumes "preceded_by a b tr" and "b \<in> set tr"
  shows "a \<in> set tr"
proof -
  from assms(2) obtain pre post where e: "tr = pre @ b # post"
    by (meson split_list)
  with assms(1) have "a \<in> set pre" by (simp add: preceded_by_def)
  with e show ?thesis by simp
qed

lemma preceded_by_Nil: "preceded_by a b []"
  by (simp add: preceded_by_def)

lemma start_fresh_or_memo:
  "stopResult s = None \<Longrightarrow> start s = (s1, evs, r) \<Longrightarrow>
   (\<exists>i c. r = Some i \<and> startResult s1 = Some (i, c)) \<and> stopResult s1 = None \<and>
   (\<forall>i c. startResult s = Some (i, c) \<longrightarrow> s1 = s \<and> evs = []) \<and>
   (\<forall>i. startResult s1 = Some (i, StartResolved) \<longrightarrow> startResult s = Some (i, StartResolved)) \<and>
   LogStarted \<notin> set evs"
  by (auto simp: start_def defineReady_def startProcess_def Let_def split: option.splits prod.splits)

lemma service_step_start_id:
  assumes "service_step sid c t l s = Some (s1, evs)" and "startResult s = Some (i, k)"
  shows "\<exists>k1. startResult s1 = Some (i, k1)"
  using service_step_startResult[OF assms(1)] assms(2)
  by (cases "startResult s1") auto

lemma stop_keeps_start:
  "stop s = (s1, evs, r) \<Longrightarrow> startResult s1 = startResult s \<and> stopResult s1 \<noteq> None"
  by (auto simp: stop_def Let_def split: option.splits prod.splits if_splits)

lemma service_step_resolved:
  "service_step sid c t l s = Some (s1, evs) \<Longrightarrow> startResult s1 = Some (i, StartResolved) \<Longrightarrow>
   startResult s = Some (i, StartResolved) \<or> LogStarted \<in> set evs"
  by (auto simp: step_defs Let_def split: step_splits)

lemma service_step_stop_none:
  "service_step sid c t l s = Some (s1, evs) \<Longrightarrow> (stopResult s1 = None) = (stopResult s = None)"
  using service_step_stopResult[of sid c t l s s1 evs] by (metis option.map_disc_iff)

lemma await_start_kept:
  assumes "start_state_inv st"
    and "\<And>i c. startResult (serviceMap st sid) = Some (i, c) \<Longrightarrow> \<exists>c1. startResult s1 = Some (i, c1)"
    and "startTasks st p1 = Some (AwaitStart r1)"
  shows "\<exists>i c. r1 = Some i \<and> startResult (((serviceMap st)(sid := s1)) (hd p1)) = Some (i, c)"
proof -
  from assms(1,3) obtain i k where k: "r1 = Some i"
    "startResult (serviceMap st (hd p1)) = Some (i, k)"
    unfolding start_state_inv_def by blast
  show ?thesis
  proof (cases "hd p1 = sid")
    case True
    with assms(2) k show ?thesis by auto
  next
    case False
    with k show ?thesis by auto
  qed
qed

lemma start_state_inv_step:
  assumes "step cfg l st = Some st1" and "start_state_inv st"
  shows "start_state_inv st1"
  using assms(1)
proof (cases rule: step_cases)
  case (Failed p)
  with assms(2) show ?thesis by (auto simp: start_state_inv_def)
next
  case (Park p)
  with assms(2) show ?thesis by (auto simp: start_state_inv_def)
next
  case (Invoke p s1 evs r)
  have n: "stopResult (serviceMap st (hd p)) = None"
    using assms(2) Invoke(3) unfolding start_state_inv_def by blast
  note f = start_fresh_or_memo[OF n Invoke(5)]
  have a: "\<forall>p1. startTasks st1 p1 = Some StartDone \<longrightarrow> StartServiceDone p1 \<in> set (trace st1)"
    using assms(2) by (auto simp: start_state_inv_def Invoke(6))
  have b: "\<exists>i c. r1 = Some i \<and> startResult (serviceMap st1 (hd p1)) = Some (i, c)"
    if "startTasks st1 p1 = Some (AwaitStart r1)" for p1 r1
  proof (cases "p1 = p")
    case True
    with that have "r1 = r" by (simp add: Invoke(6))
    with f True show ?thesis by (auto simp: Invoke(6))
  next
    case False
    with that have o: "startTasks st p1 = Some (AwaitStart r1)" by (simp add: Invoke(6))
    with assms(2) obtain i c where k: "r1 = Some i"
      "startResult (serviceMap st (hd p1)) = Some (i, c)"
      unfolding start_state_inv_def by blast
    show ?thesis
    proof (cases "hd p1 = hd p")
      case True
      with k f have "s1 = serviceMap st (hd p)" by metis
      with k True show ?thesis by (auto simp: Invoke(6))
    next
      case False
      with k show ?thesis by (auto simp: Invoke(6))
    qed
  qed
  have c: "Service s LogStarted \<in> set (trace st1)"
    if "startResult (serviceMap st1 s) = Some (i, StartResolved)" for s i
  proof (cases "s = hd p")
    case True
    with that f have "startResult (serviceMap st s) = Some (i, StartResolved)"
      by (auto simp: Invoke(6))
    with assms(2) show ?thesis by (auto simp: start_state_inv_def Invoke(6))
  next
    case False
    with that assms(2) show ?thesis by (auto simp: start_state_inv_def Invoke(6))
  qed
  have d: "\<forall>s. stopResult (serviceMap st1 s) \<noteq> None \<longrightarrow> stopping st1"
    using assms(2) f by (auto simp: start_state_inv_def Invoke(6))
  have e: "\<forall>q. stopTasks st1 q \<noteq> None \<longrightarrow> stopping st1"
    using assms(2) by (auto simp: start_state_inv_def Invoke(6))
  from a b c d e show ?thesis unfolding start_state_inv_def by blast
next
  case (Done p r)
  from assms(2) Done(2) obtain i where "r = Some i"
    unfolding start_state_inv_def by blast
  with Done(3) have "startResult (serviceMap st (hd p)) = Some (i, StartResolved)"
    by (simp add: start_outcome_resolved_def)
  with assms(2) have "Service (hd p) LogStarted \<in> set (trace st)"
    by (auto simp: start_state_inv_def)
  with assms(2) Done show ?thesis by (auto simp: start_state_inv_def)
next
  case (StopInvoke q s1 evs r)
  have s: "stopping st" using assms(2) StopInvoke(2) by (auto simp: start_state_inv_def)
  note k = stop_keeps_start[OF StopInvoke(4)]
  have a: "\<forall>p1. startTasks st1 p1 = Some StartDone \<longrightarrow> StartServiceDone p1 \<in> set (trace st1)"
    using assms(2) by (auto simp: start_state_inv_def StopInvoke(5))
  have b: "\<exists>i c. r1 = Some i \<and> startResult (serviceMap st1 (hd p1)) = Some (i, c)"
    if "startTasks st1 p1 = Some (AwaitStart r1)" for p1 r1
  proof -
    from that have "startTasks st p1 = Some (AwaitStart r1)" by (simp add: StopInvoke(5))
    from await_start_kept[OF assms(2) _ this, of "hd q" s1] k show ?thesis
      by (simp add: StopInvoke(5))
  qed
  have c: "Service s LogStarted \<in> set (trace st1)"
    if "startResult (serviceMap st1 s) = Some (i, StartResolved)" for s i
  proof -
    from that k have "startResult (serviceMap st s) = Some (i, StartResolved)"
      by (cases "s = hd q") (auto simp: StopInvoke(5))
    with assms(2) show ?thesis by (auto simp: start_state_inv_def StopInvoke(5))
  qed
  have d: "stopping st1" using s by (simp add: StopInvoke(5))
  from a b c d show ?thesis unfolding start_state_inv_def by blast
next
  case (StopDone q r)
  with assms(2) show ?thesis by (auto simp: start_state_inv_def)
next
  case (Die m)
  with assms(2) show ?thesis
    by (auto simp: start_state_inv_def die_fields die_stopping)
next
  case (Inside sid l1 c s1 evs)
  let ?b = "st\<lparr>serviceMap := (serviceMap st)(sid := s1),
                trace := trace st @ map (Service sid) evs\<rparr>"
  have a: "\<forall>p1. startTasks ?b p1 = Some StartDone \<longrightarrow> StartServiceDone p1 \<in> set (trace ?b)"
    using assms(2) by (auto simp: start_state_inv_def)
  have b: "\<exists>i c. r1 = Some i \<and> startResult (serviceMap ?b (hd p1)) = Some (i, c)"
    if "startTasks ?b p1 = Some (AwaitStart r1)" for p1 r1
  proof -
    from that have "startTasks st p1 = Some (AwaitStart r1)" by simp
    from await_start_kept[OF assms(2) _ this, of sid s1] service_step_start_id[OF Inside(3)]
    show ?thesis by simp
  qed
  have c: "Service s LogStarted \<in> set (trace ?b)"
    if "startResult (serviceMap ?b s) = Some (i, StartResolved)" for s i
  proof (cases "s = sid")
    case True
    with that have "startResult s1 = Some (i, StartResolved)" by simp
    from service_step_resolved[OF Inside(3) this] assms(2) True show ?thesis
      by (auto simp: start_state_inv_def)
  next
    case False
    with that assms(2) show ?thesis by (auto simp: start_state_inv_def)
  qed
  have d: "\<forall>s. stopResult (serviceMap ?b s) \<noteq> None \<longrightarrow> stopping ?b"
    using assms(2) service_step_stop_none[OF Inside(3)] by (auto simp: start_state_inv_def)
  have e: "\<forall>q. stopTasks ?b q \<noteq> None \<longrightarrow> stopping ?b"
    using assms(2) by (auto simp: start_state_inv_def)
  have i: "start_state_inv ?b"
    using a b c d e unfolding start_state_inv_def by blast
  have "start_state_inv (fst (die cfg m ?b))" for m
    using i by (auto simp: start_state_inv_def die_fields die_stopping)
  with i Inside(4) show ?thesis by (auto split: list.splits)
next
  case (Other new)
  with assms(2) show ?thesis by (auto simp: start_state_inv_def)
qed

lemma start_state_inv_run:
  "run cfg ls (construct (Inr cfg)) = Some st \<Longrightarrow> start_state_inv st"
proof (erule run_induct[where P = start_state_inv])
  show "start_state_inv (construct (Inr cfg))"
    by (simp add: start_state_inv_def construct_def new_service_def)
qed (rule start_state_inv_step)

lemma start_order_inv_append:
  assumes "start_order_inv cfg st" and "trace st1 = trace st @ new"
    and "\<And>p d. StartInvoked p \<in> set new \<Longrightarrow> d \<in> set (deps_of cfg (hd p)) \<Longrightarrow>
           StartServiceDone (d # p) \<in> set (trace st)"
    and "\<And>p. StartServiceDone p \<in> set new \<Longrightarrow> Service (hd p) LogStarted \<in> set (trace st)"
    and "\<And>s d. Service s LogStarting \<in> set new \<Longrightarrow> d \<in> set (deps_of cfg s) \<Longrightarrow>
           Service d LogStarted \<in> set (trace st)"
  shows "start_order_inv cfg st1"
proof -
  have a: "preceded_by (StartServiceDone (d # p)) (StartInvoked p) (trace st1)"
    if "d \<in> set (deps_of cfg (hd p))" for p d
    unfolding assms(2)
    by (rule preceded_by_append) (use assms(1,3) that in \<open>auto simp: start_order_inv_def\<close>)
  have b: "preceded_by (Service (hd p) LogStarted) (StartServiceDone p) (trace st1)" for p
    unfolding assms(2)
    by (rule preceded_by_append) (use assms(1,4) in \<open>auto simp: start_order_inv_def\<close>)
  have c: "preceded_by (Service d LogStarted) (Service s LogStarting) (trace st1)"
    if "d \<in> set (deps_of cfg s)" for s d
    unfolding assms(2)
    by (rule preceded_by_append) (use assms(1,5) that in \<open>auto simp: start_order_inv_def\<close>)
  from a b c show ?thesis unfolding start_order_inv_def by blast
qed

lemma start_events:
  "start s = (s1, evs, r) \<Longrightarrow> e \<in> set evs \<Longrightarrow>
   e = LogStarting \<or> (\<exists>g. e = GateCreated g) \<or> (\<exists>h. e = Spawned h ByStart) \<or>
   (\<exists>m. e = InternalErrorLogged m)"
  by (auto simp: start_def defineReady_def startProcess_def Let_def split: option.splits prod.splits)

lemma start_order_inv_step:
  assumes "step cfg l st = Some st1" and "start_state_inv st" and "start_order_inv cfg st"
  shows "start_order_inv cfg st1"
  using assms(1)
proof (cases rule: step_cases)
  case (Failed p)
  show ?thesis
    by (rule start_order_inv_append[OF assms(3), where new = "[]"]) (simp_all add: Failed)
next
  case (Park p)
  show ?thesis
    by (rule start_order_inv_append[OF assms(3), where new = "[]"]) (simp_all add: Park)
next
  case (Invoke p s1 evs r)
  have d: "StartServiceDone (d # p) \<in> set (trace st)" if "d \<in> set (deps_of cfg (hd p))" for d
  proof -
    from Invoke(4) that have "child_state cfg st (d # p) = Some StartDone"
      by (simp add: list_all_iff)
    then have "startTasks st (d # p) = Some StartDone"
      by (simp add: child_state_def split: if_splits)
    with assms(2) show ?thesis unfolding start_state_inv_def by blast
  qed
  have e: "Service d LogStarted \<in> set (trace st)" if "d \<in> set (deps_of cfg (hd p))" for d
  proof -
    have "preceded_by (Service (hd (d # p)) LogStarted) (StartServiceDone (d # p)) (trace st)"
      using assms(3) unfolding start_order_inv_def by blast
    from preceded_byD[OF this d[OF that]] show ?thesis by simp
  qed
  show ?thesis
  proof (rule start_order_inv_append[OF assms(3),
        where new = "StartInvoked p # map (Service (hd p)) evs"])
    show "trace st1 = trace st @ StartInvoked p # map (Service (hd p)) evs"
      by (simp add: Invoke(6))
  qed (use d e in auto)
next
  case (Done p r)
  from assms(2) Done(2) obtain i where "r = Some i"
    unfolding start_state_inv_def by blast
  with Done(3) have "startResult (serviceMap st (hd p)) = Some (i, StartResolved)"
    by (simp add: start_outcome_resolved_def)
  with assms(2) have s: "Service (hd p) LogStarted \<in> set (trace st)"
    unfolding start_state_inv_def by blast
  show ?thesis
    by (rule start_order_inv_append[OF assms(3), where new = "[StartServiceDone p]"])
       (use s in \<open>auto simp: Done(4)\<close>)
next
  case (StopInvoke q s1 evs r)
  show ?thesis
  proof (rule start_order_inv_append[OF assms(3),
        where new = "StopInvoked q # map (Service (hd q)) evs"])
    show "trace st1 = trace st @ StopInvoked q # map (Service (hd q)) evs"
      by (simp add: StopInvoke(5))
  qed (use stop_events[OF StopInvoke(4)] in auto)
next
  case (StopDone q r)
  show ?thesis
    by (rule start_order_inv_append[OF assms(3), where new = "[StopServiceDone q]"])
       (auto simp: StopDone(4))
next
  case (Die m)
  show ?thesis
    by (rule start_order_inv_append[OF assms(3),
          where new = "if stopping st then [] else [LogError m, LogInfo ''Stopping composite service...'']"])
       (auto simp: Die die_fields split: if_splits)
next
  case (Inside sid l1 c s1 evs)
  let ?b = "st\<lparr>serviceMap := (serviceMap st)(sid := s1),
                trace := trace st @ map (Service sid) evs\<rparr>"
  have n: "Service s LogStarting \<notin> set (map (Service sid) evs)" for s
    using service_step_no_start[OF Inside(3)] by auto
  have b: "start_order_inv cfg ?b"
    by (rule start_order_inv_append[OF assms(3), where new = "map (Service sid) evs"])
       (use n in auto)
  have "start_order_inv cfg (fst (die cfg m ?b))" for m
    by (rule start_order_inv_append[OF b,
          where new = "if stopping ?b then [] else [LogError m, LogInfo ''Stopping composite service...'']"])
       (auto simp: die_fields split: if_splits)
  with b Inside(4) show ?thesis by (auto split: list.splits)
next
  case (Other new)
  show ?thesis
    by (rule start_order_inv_append[OF assms(3) Other(5)]) (use Other(6) in auto)
qed

lemma start_invs_run:
  assumes "run cfg ls (construct (Inr cfg)) = Some st"
  shows "start_state_inv st \<and> start_order_inv cfg st"
proof (rule run_induct[OF assms, where P = "\<lambda>x. start_state_inv x \<and> start_order_inv cfg x"])
  show "start_state_inv (construct (Inr cfg)) \<and> start_order_inv cfg (construct (Inr cfg))"
    by (auto simp: start_state_inv_def start_order_inv_def construct_def new_service_def
        preceded_by_def Cons_eq_append_conv)
qed (auto intro: start_state_inv_step start_order_inv_step)

text \<open>
  Claim C1. In every run, on every graph (acyclic or not): when a call of
  \<open>startService\<close> calls \<open>start()\<close> of its service, the calls of \<open>startService\<close> it
  made for the dependencies of that service have all returned before, and each of these
  dependencies has logged that it is started before; and whenever a service logs that
  it is starting (its first \<open>start()\<close>), each of its dependencies has logged before
  that it is started (its \<open>startResult\<close> is fulfilled).
\<close>

theorem start_after_dependencies:
  assumes "run cfg ls (construct (Inr cfg)) = Some st"
  shows "(\<forall>pre post p d. trace st = pre @ StartInvoked p # post \<and>
            d \<in> set (deps_of cfg (hd p)) \<longrightarrow>
            StartServiceDone (d # p) \<in> set pre \<and> Service d LogStarted \<in> set pre) \<and>
         (\<forall>pre post s d. trace st = pre @ Service s LogStarting # post \<and>
            d \<in> set (deps_of cfg s) \<longrightarrow> Service d LogStarted \<in> set pre)"
proof -
  have i: "start_order_inv cfg st" using start_invs_run[OF assms] by blast
  have a: "StartServiceDone (d # p) \<in> set pre \<and> Service d LogStarted \<in> set pre"
    if "trace st = pre @ StartInvoked p # post" "d \<in> set (deps_of cfg (hd p))" for pre post p d
  proof -
    have "preceded_by (StartServiceDone (d # p)) (StartInvoked p) (trace st)"
      using i that(2) unfolding start_order_inv_def by blast
    with that(1) have x: "StartServiceDone (d # p) \<in> set pre"
      by (simp add: preceded_by_def)
    then obtain pre1 post1 where e: "pre = pre1 @ StartServiceDone (d # p) # post1"
      by (meson split_list)
    have "preceded_by (Service (hd (d # p)) LogStarted) (StartServiceDone (d # p)) (trace st)"
      using i unfolding start_order_inv_def by blast
    with that(1) e have "Service d LogStarted \<in> set pre1"
      by (simp add: preceded_by_def)
    with x e show ?thesis by simp
  qed
  have b: "Service d LogStarted \<in> set pre"
    if "trace st = pre @ Service s LogStarting # post" "d \<in> set (deps_of cfg s)" for pre post s d
  proof -
    have "preceded_by (Service d LogStarted) (Service s LogStarting) (trace st)"
      using i that(2) unfolding start_order_inv_def by blast
    with that(1) show ?thesis by (simp add: preceded_by_def)
  qed
  from a b show ?thesis by blast
qed

theorem start_after_dependencies_witness:
  "map_option trace (run two_services (start_scenario @ [ResumeStart [''web'']])
     (construct (Inr two_services))) =
   Some ([LogInfo ''Starting composite service...'', StartInvoked [''api''],
          Service ''api'' LogStarting, Service ''api'' (GateCreated 0),
          Service ''api'' (Spawned 1 ByStart), Service ''api'' LogStarted,
          StartServiceDone [''api''], StartInvoked [''api'', ''web''],
          StartServiceDone [''api'', ''web'']] @
         StartInvoked [''web''] #
         [Service ''web'' LogStarting, Service ''web'' (GateCreated 0),
          Service ''web'' (Spawned 1 ByStart)]) \<and>
   ''api'' \<in> set (deps_of two_services (hd [''web''])) \<and>
   StartServiceDone [''api'', ''web''] \<in>
     set [LogInfo ''Starting composite service...'', StartInvoked [''api''],
          Service ''api'' LogStarting, Service ''api'' (GateCreated 0),
          Service ''api'' (Spawned 1 ByStart), Service ''api'' LogStarted,
          StartServiceDone [''api''], StartInvoked [''api'', ''web''],
          StartServiceDone [''api'', ''web'']]"
proof -
  define st where "st = the (run two_services (start_scenario @ [ResumeStart [''web'']])
     (construct (Inr two_services)))"
  have r: "run two_services (start_scenario @ [ResumeStart [''web'']])
     (construct (Inr two_services)) = Some st"
    unfolding st_def by (simp add: run_defs start_scenario_def)
  have t: "trace st = [LogInfo ''Starting composite service...'', StartInvoked [''api''],
          Service ''api'' LogStarting, Service ''api'' (GateCreated 0),
          Service ''api'' (Spawned 1 ByStart), Service ''api'' LogStarted,
          StartServiceDone [''api''], StartInvoked [''api'', ''web''],
          StartServiceDone [''api'', ''web'']] @
         StartInvoked [''web''] #
         [Service ''web'' LogStarting, Service ''web'' (GateCreated 0),
          Service ''web'' (Spawned 1 ByStart)]"
    unfolding st_def by (simp add: run_defs start_scenario_def)
  have d: "''api'' \<in> set (deps_of two_services (hd [''web'']))"
    by (simp add: deps_of_def two_services_def)
  from start_after_dependencies[OF r] t d
  have "StartServiceDone [''api'', ''web''] \<in>
     set [LogInfo ''Starting composite service...'', StartInvoked [''api''],
          Service ''api'' LogStarting, Service ''api'' (GateCreated 0),
          Service ''api'' (Spawned 1 ByStart), Service ''api'' LogStarted,
          StartServiceDone [''api''], StartInvoked [''api'', ''web''],
          StartServiceDone [''api'', ''web'']]"
    by blast
  with r t d show ?thesis by simp
qed

subsection \<open>The order of stopping\<close>

lemma start_keeps_stop: "start s = (s1, evs, r) \<Longrightarrow> stopResult s1 = stopResult s"
  by (auto simp: start_def defineReady_def startProcess_def Let_def split: option.splits prod.splits)

lemma stop_keeps_resolved:
  "stop s = (s1, evs, r) \<Longrightarrow> stopResult s = Some (x, StopResolved) \<Longrightarrow>
   stopResult s1 = Some (x, StopResolved)"
  by (auto simp: stop_def)

lemma service_step_stop_resolved:
  "service_step sid c t l s = Some (s1, evs) \<Longrightarrow> stopResult s = Some (x, StopResolved) \<Longrightarrow>
   stopResult s1 = Some (x, StopResolved)"
  by (auto simp: step_defs Let_def split: step_splits)

text \<open>A step that leaves the calls of stopService alone and adds no event of theirs.\<close>

lemma stop_state_inv_frame:
  assumes "stop_state_inv cfg st" and "stopTasks st1 = stopTasks st"
    and "trace st1 = trace st @ new"
    and "\<forall>q. StopInvoked q \<notin> set new \<and> StopServiceDone q \<notin> set new"
    and "\<And>s x. stopResult (serviceMap st s) = Some (x, StopResolved) \<Longrightarrow>
           stopResult (serviceMap st1 s) = Some (x, StopResolved)"
  shows "stop_state_inv cfg st1"
proof -
  have a: "\<exists>r. stopResult (serviceMap st1 (hd q)) = Some (r, StopResolved)"
    if "StopServiceDone q \<in> set (trace st1)" for q
  proof -
    from that assms(3,4) have "StopServiceDone q \<in> set (trace st)" by auto
    with assms(1) obtain r where "stopResult (serviceMap st (hd q)) = Some (r, StopResolved)"
      unfolding stop_state_inv_def by blast
    from assms(5)[OF this] show ?thesis by blast
  qed
  have b: "stop_call cfg q" if "StopInvoked q \<in> set (trace st1)" for q
  proof -
    from that assms(3,4) have "StopInvoked q \<in> set (trace st)" by auto
    with assms(1) show ?thesis unfolding stop_state_inv_def by blast
  qed
  have c: "\<forall>q. stopTasks st1 q \<noteq> None \<longrightarrow> stop_call cfg q"
    "\<forall>q r. stopTasks st1 q = Some (AwaitStop r) \<longrightarrow> StopInvoked q \<in> set (trace st1)"
    "\<forall>q. stopTasks st1 q = Some StopDone \<longrightarrow> StopServiceDone q \<in> set (trace st1)"
    using assms(1) unfolding stop_state_inv_def assms(2,3) by auto
  from a b c show ?thesis unfolding stop_state_inv_def by blast
qed

lemma stop_state_inv_die:
  assumes "stop_state_inv cfg st" and "\<not> stopping st \<longrightarrow> (\<forall>q. stopTasks st q = None)"
  shows "stop_state_inv cfg (fst (die cfg m st))"
proof (cases "stopping st")
  case True
  with assms(1) show ?thesis by (simp add: die_when_stopping)
next
  case False
  with assms(2) have n: "\<forall>q. stopTasks st q = None"
    by blast
  have a: "\<exists>r. stopResult (serviceMap (fst (die cfg m st)) (hd q)) = Some (r, StopResolved)"
    if "StopServiceDone q \<in> set (trace (fst (die cfg m st)))" for q
    using that assms(1) unfolding stop_state_inv_def by (auto simp: die_fields split: if_splits)
  have b: "stop_call cfg q" if "StopInvoked q \<in> set (trace (fst (die cfg m st)))" for q
    using that assms(1) unfolding stop_state_inv_def by (auto simp: die_fields split: if_splits)
  have c: "\<forall>q. stopTasks (fst (die cfg m st)) q \<noteq> None \<longrightarrow> stop_call cfg q"
    "\<forall>q r. stopTasks (fst (die cfg m st)) q = Some (AwaitStop r) \<longrightarrow>
        StopInvoked q \<in> set (trace (fst (die cfg m st)))"
    "\<forall>q. stopTasks (fst (die cfg m st)) q = Some StopDone \<longrightarrow>
        StopServiceDone q \<in> set (trace (fst (die cfg m st)))"
    using False by (auto simp: die_fields)
  from a b c show ?thesis unfolding stop_state_inv_def by blast
qed

lemma stop_state_inv_step:
  assumes "step cfg l st = Some st1" and "start_state_inv st" and "stop_state_inv cfg st"
  shows "stop_state_inv cfg st1"
  using assms(1)
proof (cases rule: step_cases)
  case (Failed p)
  show ?thesis
    by (rule stop_state_inv_frame[OF assms(3), where new = "[]"]) (simp_all add: Failed)
next
  case (Park p)
  show ?thesis
    by (rule stop_state_inv_frame[OF assms(3), where new = "[]"]) (simp_all add: Park)
next
  case (Invoke p s1 evs r)
  show ?thesis
  proof (rule stop_state_inv_frame[OF assms(3),
        where new = "StartInvoked p # map (Service (hd p)) evs"])
    fix s x assume "stopResult (serviceMap st s) = Some (x, StopResolved)"
    then show "stopResult (serviceMap st1 s) = Some (x, StopResolved)"
      using start_keeps_stop[OF Invoke(5)] by (cases "s = hd p") (auto simp: Invoke(6))
  qed (auto simp: Invoke(6))
next
  case (Done p r)
  show ?thesis
    by (rule stop_state_inv_frame[OF assms(3), where new = "[StartServiceDone p]"])
       (auto simp: Done(4))
next
  case (StopInvoke q s1 evs r)
  have k: "stop_call cfg q"
    using assms(3) StopInvoke(2) unfolding stop_state_inv_def by auto
  have a: "\<exists>r. stopResult (serviceMap st1 (hd q1)) = Some (r, StopResolved)"
    if "StopServiceDone q1 \<in> set (trace st1)" for q1
  proof -
    from that have "StopServiceDone q1 \<in> set (trace st)" by (auto simp: StopInvoke(5))
    with assms(3) obtain x where x: "stopResult (serviceMap st (hd q1)) = Some (x, StopResolved)"
      unfolding stop_state_inv_def by blast
    show ?thesis
    proof (cases "hd q1 = hd q")
      case True
      with x stop_keeps_resolved[OF StopInvoke(4)] show ?thesis by (auto simp: StopInvoke(5))
    next
      case False
      with x show ?thesis by (auto simp: StopInvoke(5))
    qed
  qed
  have b: "stop_call cfg q1" if "StopInvoked q1 \<in> set (trace st1)" for q1
    using that k assms(3) unfolding stop_state_inv_def by (auto simp: StopInvoke(5))
  have c: "\<forall>q. stopTasks st1 q \<noteq> None \<longrightarrow> stop_call cfg q"
    "\<forall>q r. stopTasks st1 q = Some (AwaitStop r) \<longrightarrow> StopInvoked q \<in> set (trace st1)"
    "\<forall>q. stopTasks st1 q = Some StopDone \<longrightarrow> StopServiceDone q \<in> set (trace st1)"
    using assms(3) k unfolding stop_state_inv_def by (auto simp: StopInvoke(5))
  from a b c show ?thesis unfolding stop_state_inv_def by blast
next
  case (StopDone q r)
  have a: "\<exists>r. stopResult (serviceMap st1 (hd q1)) = Some (r, StopResolved)"
    if "StopServiceDone q1 \<in> set (trace st1)" for q1
    using that assms(3) StopDone(3) unfolding stop_state_inv_def by (auto simp: StopDone(4))
  have b: "stop_call cfg q1" if "StopInvoked q1 \<in> set (trace st1)" for q1
    using that assms(3) unfolding stop_state_inv_def by (auto simp: StopDone(4))
  have c: "\<forall>q. stopTasks st1 q \<noteq> None \<longrightarrow> stop_call cfg q"
    "\<forall>q r. stopTasks st1 q = Some (AwaitStop r) \<longrightarrow> StopInvoked q \<in> set (trace st1)"
    "\<forall>q. stopTasks st1 q = Some StopDone \<longrightarrow> StopServiceDone q \<in> set (trace st1)"
    using assms(3) StopDone(2) unfolding stop_state_inv_def by (auto simp: StopDone(4))
  from a b c show ?thesis unfolding stop_state_inv_def by blast
next
  case (Die m)
  have "\<not> stopping st \<longrightarrow> (\<forall>q. stopTasks st q = None)"
    using assms(2) unfolding start_state_inv_def by auto
  with stop_state_inv_die[OF assms(3)] Die show ?thesis by simp
next
  case (Inside sid l1 c s1 evs)
  let ?b = "st\<lparr>serviceMap := (serviceMap st)(sid := s1),
                trace := trace st @ map (Service sid) evs\<rparr>"
  have b: "stop_state_inv cfg ?b"
  proof (rule stop_state_inv_frame[OF assms(3), where new = "map (Service sid) evs"])
    fix s x assume "stopResult (serviceMap st s) = Some (x, StopResolved)"
    then show "stopResult (serviceMap ?b s) = Some (x, StopResolved)"
      using service_step_stop_resolved[OF Inside(3)] by (cases "s = sid") auto
  qed auto
  have s: "\<not> stopping ?b \<longrightarrow> (\<forall>q. stopTasks ?b q = None)"
    using assms(2) unfolding start_state_inv_def by auto
  have "stop_state_inv cfg (fst (die cfg m ?b))" for m
    by (rule stop_state_inv_die[OF b s])
  with b Inside(4) show ?thesis by (auto split: list.splits)
next
  case (Other new)
  show ?thesis
    by (rule stop_state_inv_frame[OF assms(3) Other(4,5)]) (use Other(2,6) in auto)
qed

lemma stop_order_inv_append:
  assumes "stop_order_inv cfg st" and "trace st1 = trace st @ new"
    and "\<And>q d. StopInvoked q \<in> set new \<Longrightarrow> d \<in> set (dependents cfg (hd q)) \<Longrightarrow>
           StopServiceDone (d # q) \<in> set (trace st)"
    and "\<And>q. StopServiceDone q \<in> set new \<Longrightarrow> StopInvoked q \<in> set (trace st)"
  shows "stop_order_inv cfg st1"
proof -
  have a: "preceded_by (StopServiceDone (d # q)) (StopInvoked q) (trace st1)"
    if "d \<in> set (dependents cfg (hd q))" for q d
    unfolding assms(2)
    by (rule preceded_by_append) (use assms(1,3) that in \<open>auto simp: stop_order_inv_def\<close>)
  have b: "preceded_by (StopInvoked q) (StopServiceDone q) (trace st1)" for q
    unfolding assms(2)
    by (rule preceded_by_append) (use assms(1,4) in \<open>auto simp: stop_order_inv_def\<close>)
  from a b show ?thesis unfolding stop_order_inv_def by blast
qed

lemma stop_order_inv_step:
  assumes "step cfg l st = Some st1" and "stop_state_inv cfg st" and "stop_order_inv cfg st"
  shows "stop_order_inv cfg st1"
  using assms(1)
proof (cases rule: step_cases)
  case (Failed p)
  show ?thesis
    by (rule stop_order_inv_append[OF assms(3), where new = "[]"]) (simp_all add: Failed)
next
  case (Park p)
  show ?thesis
    by (rule stop_order_inv_append[OF assms(3), where new = "[]"]) (simp_all add: Park)
next
  case (Invoke p s1 evs r)
  show ?thesis
    by (rule stop_order_inv_append[OF assms(3),
          where new = "StartInvoked p # map (Service (hd p)) evs"])
       (auto simp: Invoke(6))
next
  case (Done p r)
  show ?thesis
    by (rule stop_order_inv_append[OF assms(3), where new = "[StartServiceDone p]"])
       (auto simp: Done(4))
next
  case (StopInvoke q s1 evs r)
  have d: "StopServiceDone (d # q) \<in> set (trace st)" if "d \<in> set (dependents cfg (hd q))" for d
  proof -
    from StopInvoke(3) that have "stopTasks st (d # q) = Some StopDone"
      by (simp add: list_all_iff)
    with assms(2) show ?thesis unfolding stop_state_inv_def by blast
  qed
  show ?thesis
    by (rule stop_order_inv_append[OF assms(3),
          where new = "StopInvoked q # map (Service (hd q)) evs"])
       (use d in \<open>auto simp: StopInvoke(5)\<close>)
next
  case (StopDone q r)
  have "StopInvoked q \<in> set (trace st)"
    using assms(2) StopDone(2) unfolding stop_state_inv_def by blast
  then show ?thesis
    by (intro stop_order_inv_append[OF assms(3), where new = "[StopServiceDone q]"])
       (auto simp: StopDone(4))
next
  case (Die m)
  show ?thesis
    by (rule stop_order_inv_append[OF assms(3),
          where new = "if stopping st then [] else [LogError m, LogInfo ''Stopping composite service...'']"])
       (auto simp: Die die_fields split: if_splits)
next
  case (Inside sid l1 c s1 evs)
  let ?b = "st\<lparr>serviceMap := (serviceMap st)(sid := s1),
                trace := trace st @ map (Service sid) evs\<rparr>"
  have b: "stop_order_inv cfg ?b"
    by (rule stop_order_inv_append[OF assms(3), where new = "map (Service sid) evs"]) auto
  have "stop_order_inv cfg (fst (die cfg m ?b))" for m
    by (rule stop_order_inv_append[OF b,
          where new = "if stopping ?b then [] else [LogError m, LogInfo ''Stopping composite service...'']"])
       (auto simp: die_fields split: if_splits)
  with b Inside(4) show ?thesis by (auto split: list.splits)
next
  case (Other new)
  show ?thesis
    by (rule stop_order_inv_append[OF assms(3) Other(5)]) (use Other(6) in auto)
qed

lemma stop_invs_run:
  assumes "run cfg ls (construct (Inr cfg)) = Some st"
  shows "start_state_inv st \<and> stop_state_inv cfg st \<and> stop_order_inv cfg st"
proof (rule run_induct[OF assms,
      where P = "\<lambda>x. start_state_inv x \<and> stop_state_inv cfg x \<and> stop_order_inv cfg x"])
  show "start_state_inv (construct (Inr cfg)) \<and> stop_state_inv cfg (construct (Inr cfg)) \<and>
        stop_order_inv cfg (construct (Inr cfg))"
    by (auto simp: start_state_inv_def stop_state_inv_def stop_order_inv_def construct_def
        new_service_def preceded_by_def Cons_eq_append_conv)
qed (auto intro: start_state_inv_step stop_state_inv_step stop_order_inv_step)

lemma stop_call_Cons:
  "x \<noteq> [] \<Longrightarrow> stop_call cfg (d # x) = (d \<in> set (dependents cfg (hd x)) \<and> stop_call cfg x)"
  by (cases x) auto

lemma stop_call_chain:
  assumes "(d, s) \<in> (depends_on cfg)\<^sup>+" and "stop_call cfg q" and "hd q = s"
  shows "\<exists>c. c \<noteq> [] \<and> hd c = d \<and> stop_call cfg (c @ q)"
  using assms(1)
proof (induction rule: converse_trancl_induct)
  case (base y)
  have "q \<noteq> []" using assms(2) by auto
  with base assms(2,3) have "stop_call cfg ([y] @ q)"
    by (simp add: stop_call_Cons depends_on_def)
  then show ?case by (intro exI[of _ "[y]"]) simp
next
  case (step y z)
  then obtain c where c: "c \<noteq> []" "hd c = z" "stop_call cfg (c @ q)" by blast
  with step(1) have "stop_call cfg ((y # c) @ q)"
    by (simp add: stop_call_Cons depends_on_def)
  then show ?case by (intro exI[of _ "y # c"]) simp
qed

lemma stop_direct:
  assumes "stop_order_inv cfg st" and "trace st = pre @ StopInvoked q # post"
    and "d \<in> set (dependents cfg (hd q))"
  shows "StopInvoked (d # q) \<in> set pre \<and> StopServiceDone (d # q) \<in> set pre"
proof -
  have "preceded_by (StopServiceDone (d # q)) (StopInvoked q) (trace st)"
    using assms(1,3) unfolding stop_order_inv_def by blast
  with assms(2) have x: "StopServiceDone (d # q) \<in> set pre"
    by (simp add: preceded_by_def)
  then obtain pre1 post1 where e: "pre = pre1 @ StopServiceDone (d # q) # post1"
    by (meson split_list)
  have "preceded_by (StopInvoked (d # q)) (StopServiceDone (d # q)) (trace st)"
    using assms(1) unfolding stop_order_inv_def by blast
  with assms(2) e have "StopInvoked (d # q) \<in> set pre1"
    by (simp add: preceded_by_def)
  with x e show ?thesis by simp
qed

lemma stop_chain:
  assumes "stop_order_inv cfg st" and "trace st = pre @ StopInvoked q # post" and "q \<noteq> []"
  shows "c \<noteq> [] \<Longrightarrow> stop_call cfg (c @ q) \<Longrightarrow>
         StopInvoked (c @ q) \<in> set pre \<and> StopServiceDone (c @ q) \<in> set pre"
proof (induction c)
  case Nil
  then show ?case by simp
next
  case (Cons d c)
  show ?case
  proof (cases "c = []")
    case True
    with Cons.prems(2) assms(3) have "d \<in> set (dependents cfg (hd q))"
      by (simp add: stop_call_Cons)
    from stop_direct[OF assms(1,2) this] True show ?thesis by simp
  next
    case False
    with Cons.prems(2) have d: "d \<in> set (dependents cfg (hd (c @ q)))" "stop_call cfg (c @ q)"
      by (simp_all add: stop_call_Cons)
    from Cons.IH[OF False d(2)] obtain pre1 post1
      where e: "pre = pre1 @ StopInvoked (c @ q) # post1"
      by (meson split_list)
    with assms(2) have "trace st = pre1 @ StopInvoked (c @ q) # (post1 @ StopInvoked q # post)"
      by simp
    from stop_direct[OF assms(1) this d(1)] e show ?thesis by simp
  qed
qed

text \<open>
  Claim C3. In every run, on every graph: when a call of \<open>stopService\<close> calls
  \<open>stop()\<close> of its service, the calls of \<open>stopService\<close> it made for the services
  that list that service as a dependency have called \<open>stop()\<close> and returned before;
  so have, along a chain of calls, those for every service that depends on it through
  other services; and a call of \<open>stopService\<close> returns only when the \<open>stopResult\<close>
  of its service is fulfilled.
\<close>

theorem stop_after_dependents:
  assumes "run cfg ls (construct (Inr cfg)) = Some st"
  shows "(\<forall>pre post q d. trace st = pre @ StopInvoked q # post \<and>
            d \<in> set (dependents cfg (hd q)) \<longrightarrow>
            StopInvoked (d # q) \<in> set pre \<and> StopServiceDone (d # q) \<in> set pre) \<and>
         (\<forall>pre post q d. trace st = pre @ StopInvoked q # post \<and>
            (d, hd q) \<in> (depends_on cfg)\<^sup>+ \<longrightarrow>
            (\<exists>c. c \<noteq> [] \<and> hd c = d \<and>
                 StopInvoked (c @ q) \<in> set pre \<and> StopServiceDone (c @ q) \<in> set pre)) \<and>
         (\<forall>q. StopServiceDone q \<in> set (trace st) \<longrightarrow>
            (\<exists>r. stopResult (serviceMap st (hd q)) = Some (r, StopResolved)))"
proof -
  have i: "stop_state_inv cfg st" "stop_order_inv cfg st"
    using stop_invs_run[OF assms] by blast+
  have a: "StopInvoked (d # q) \<in> set pre \<and> StopServiceDone (d # q) \<in> set pre"
    if "trace st = pre @ StopInvoked q # post" "d \<in> set (dependents cfg (hd q))"
    for pre post q d
    using stop_direct[OF i(2) that] .
  have b: "\<exists>c. c \<noteq> [] \<and> hd c = d \<and>
                 StopInvoked (c @ q) \<in> set pre \<and> StopServiceDone (c @ q) \<in> set pre"
    if "trace st = pre @ StopInvoked q # post" "(d, hd q) \<in> (depends_on cfg)\<^sup>+"
    for pre post q d
  proof -
    have "StopInvoked q \<in> set (trace st)" using that(1) by simp
    with i(1) have k: "stop_call cfg q" unfolding stop_state_inv_def by blast
    then have n: "q \<noteq> []" by auto
    from stop_call_chain[OF that(2) k refl] obtain c
      where c: "c \<noteq> []" "hd c = d" "stop_call cfg (c @ q)" by blast
    from stop_chain[OF i(2) that(1) n c(1,3)] c show ?thesis by blast
  qed
  have c: "\<forall>q. StopServiceDone q \<in> set (trace st) \<longrightarrow>
            (\<exists>r. stopResult (serviceMap st (hd q)) = Some (r, StopResolved))"
    using i(1) unfolding stop_state_inv_def by blast
  from a b c show ?thesis by blast
qed

theorem stop_after_dependents_witness:
  "map_option (drop 17 \<circ> trace) (run two_services stop_scenario (construct (Inr two_services))) =
   Some [StopInvoked [''web'', ''api''], Service ''web'' LogStopping,
         Service ''web'' (EndRequested 1), Service ''web'' LogStopped,
         StopServiceDone [''web'', ''api''], StopInvoked [''api''],
         Service ''api'' LogStopping, Service ''api'' (EndRequested 1)] \<and>
   ''web'' \<in> set (dependents two_services (hd [''api''])) \<and>
   StopServiceDone [''web'', ''api''] \<in>
     set (take 22 (trace (the (run two_services stop_scenario (construct (Inr two_services)))))) \<and>
   run two_services (start_scenario @
     [ResumeStart [''web''], Inside ''web'' (ProcStarted 1), Inside ''web'' ReadyFulfils,
      Inside ''web'' StartChain, ResumeStart [''web''], Signal ''SIGTERM'',
      ResumeStop [''api'']]) (construct (Inr two_services)) = None \<and>
   map_option (drop 3 \<circ> trace) (run three_services early_stop (construct (Inr three_services))) =
   Some [StopInvoked [''web'', ''api'', ''db''], StopServiceDone [''web'', ''api'', ''db''],
         StopInvoked [''api'', ''db''], StopServiceDone [''api'', ''db''], StopInvoked [''db'']] \<and>
   (''web'', ''db'') \<in> (depends_on three_services)\<^sup>+ \<and>
   (\<exists>c. c \<noteq> [] \<and> hd c = ''web'' \<and>
      StopServiceDone (c @ [''db'']) \<in>
        set (take 7 (trace (the (run three_services early_stop (construct (Inr three_services)))))))"
proof -
  define st3 where "st3 = the (run three_services early_stop (construct (Inr three_services)))"
  have r3: "run three_services early_stop (construct (Inr three_services)) = Some st3"
    unfolding st3_def by (simp add: run_defs early_stop_def three_services_def)
  have t3: "drop 3 (trace st3) =
       [StopInvoked [''web'', ''api'', ''db''], StopServiceDone [''web'', ''api'', ''db''],
         StopInvoked [''api'', ''db''], StopServiceDone [''api'', ''db''], StopInvoked [''db'']]"
    unfolding st3_def by (simp add: run_defs early_stop_def three_services_def)
  have e3: "trace st3 = take 7 (trace st3) @ StopInvoked [''db''] # drop 8 (trace st3)"
    unfolding st3_def by (simp add: run_defs early_stop_def three_services_def)
  have "(''web'', ''api'') \<in> depends_on three_services"
    "(''api'', ''db'') \<in> depends_on three_services"
    by (simp_all add: depends_on_def dependents_def deps_of_def service_ids_def three_services_def)
  then have d3: "(''web'', hd [''db'']) \<in> (depends_on three_services)\<^sup>+"
    by (simp add: trancl_into_trancl2)
  from stop_after_dependents[OF r3] e3 d3
  have x3: "\<exists>c. c \<noteq> [] \<and> hd c = ''web'' \<and>
      StopInvoked (c @ [''db'']) \<in> set (take 7 (trace st3)) \<and>
      StopServiceDone (c @ [''db'']) \<in> set (take 7 (trace st3))"
    by blast
  have w3: "map_option (drop 3 \<circ> trace) (run three_services early_stop (construct (Inr three_services))) =
   Some [StopInvoked [''web'', ''api'', ''db''], StopServiceDone [''web'', ''api'', ''db''],
         StopInvoked [''api'', ''db''], StopServiceDone [''api'', ''db''], StopInvoked [''db'']] \<and>
   (''web'', ''db'') \<in> (depends_on three_services)\<^sup>+ \<and>
   (\<exists>c. c \<noteq> [] \<and> hd c = ''web'' \<and>
      StopServiceDone (c @ [''db'']) \<in> set (take 7 (trace st3)))"
    using r3 t3 d3 x3 by auto
  define st where "st = the (run two_services stop_scenario (construct (Inr two_services)))"
  have r: "run two_services stop_scenario (construct (Inr two_services)) = Some st"
    unfolding st_def by (simp add: run_defs start_scenario_def stop_scenario_def)
  have t: "drop 17 (trace st) =
       [StopInvoked [''web'', ''api''], Service ''web'' LogStopping,
         Service ''web'' (EndRequested 1), Service ''web'' LogStopped,
         StopServiceDone [''web'', ''api''], StopInvoked [''api''],
         Service ''api'' LogStopping, Service ''api'' (EndRequested 1)]"
    unfolding st_def by (simp add: run_defs start_scenario_def stop_scenario_def)
  have e: "trace st = take 22 (trace st) @ StopInvoked [''api''] # drop 23 (trace st)"
    unfolding st_def by (simp add: run_defs start_scenario_def stop_scenario_def)
  have d: "''web'' \<in> set (dependents two_services (hd [''api'']))"
    by (simp add: dependents_def deps_of_def service_ids_def two_services_def)
  have n: "run two_services (start_scenario @
     [ResumeStart [''web''], Inside ''web'' (ProcStarted 1), Inside ''web'' ReadyFulfils,
      Inside ''web'' StartChain, ResumeStart [''web''], Signal ''SIGTERM'',
      ResumeStop [''api'']]) (construct (Inr two_services)) = None"
    by (simp add: run_defs start_scenario_def)
  from stop_after_dependents[OF r] e d
  have x: "StopServiceDone [''web'', ''api''] \<in> set (take 22 (trace st))"
    by blast
  have w2: "map_option (drop 17 \<circ> trace) (run two_services stop_scenario (construct (Inr two_services))) =
   Some [StopInvoked [''web'', ''api''], Service ''web'' LogStopping,
         Service ''web'' (EndRequested 1), Service ''web'' LogStopped,
         StopServiceDone [''web'', ''api''], StopInvoked [''api''],
         Service ''api'' LogStopping, Service ''api'' (EndRequested 1)] \<and>
   ''web'' \<in> set (dependents two_services (hd [''api''])) \<and>
   StopServiceDone [''web'', ''api''] \<in> set (take 22 (trace st))"
    using r t d x by simp
  show ?thesis
    unfolding st_def[symmetric] st3_def[symmetric] using w2 n w3 by blast
qed

end
